theory Spec2Isabelle
  imports Complex_Main "HOL-Library.Sublist"
begin

section \<open>The GRBL controller (meerk40t/grbl/controller.py)\<close>

text \<open>
  The controller owns two queues of command lines, the list of lines that were written to
  the device and are not yet acknowledged, and the count of their characters. Its operations
  mutate the object; here every operation takes the controller and returns how it ended
  together with the controller as the operation left it, so that the state is known also at
  the point where an operation raises.

  The connection object is a collaborator of the controller. What it delivers is part of
  the state: \<open>pending\<close> is the list of results that successive calls of
  \<open>connection.read()\<close> give (\<open>None\<close> for a read that gives \<open>None\<close>), and a read
  past the end of the list waits for ever, as a device that says nothing more.
  \<open>link_up\<close> tells whether \<open>connection.connect()\<close> brings the transport up.
  What is written to the device and what is logged is appended to \<open>trace\<close>:
  \<open>SendRealtime\<close> and \<open>SendLine\<close> are the calls of \<open>connection.write\<close> from
  \<open>_sending_realtime\<close> and from \<open>_sending_single_line\<close>, \<open>Recv\<close> is a response
  passed to the receive channel, \<open>Log\<close> a message on the state channel and
  \<open>Console\<close> one on the console channel. The signals to the service
  (\<open>service.signal\<close>) only notify observers, the controller reads nothing back from
  them, and they are left out.
\<close>

datatype exn = IndexError | ConnectionAbortedError

datatype outcome = Returns | Raises exn | Hangs

datatype event =
    SendRealtime string
  | SendLine string
  | Recv string
  | Log string
  | Console string

record controller =
  connected :: bool
  link_up :: bool
  pending :: "string option list"
  sending_thread :: bool
  sync_mode :: bool
  sending_queue :: "string list"
  realtime_queue :: "string list"
  commands_in_device_buffer :: "string list"
  buffered_characters :: int
  device_buffer_size :: int
  trace :: "event list"

type_synonym operation = "controller \<Rightarrow> outcome \<times> controller"

definition emit :: "event \<Rightarrow> controller \<Rightarrow> controller" where
  "emit e s = s\<lparr>trace := trace s @ [e]\<rparr>"

text \<open>\<open>GrblController.__init__\<close>: empty queues, nothing in flight, count zero.\<close>

definition init_controller :: "int \<Rightarrow> bool \<Rightarrow> bool \<Rightarrow> string option list \<Rightarrow> controller" where
  "init_controller planning_buffer_size sync up responses =
     \<lparr>connected = False, link_up = up, pending = responses, sending_thread = False,
      sync_mode = sync, sending_queue = [], realtime_queue = [],
      commands_in_device_buffer = [], buffered_characters = 0,
      device_buffer_size = planning_buffer_size, trace = []\<rparr>"

subsection \<open>Strings\<close>

text \<open>
  \<open>str.lower\<close> on the letters A to Z, and \<open>needle in haystack\<close>. The responses of the
  device are tested for the words grbl and marlin only, which other characters cannot
  produce.
\<close>

definition lower_char :: "char \<Rightarrow> char" where
  "lower_char c =
     (let n = (of_char c :: nat) in if 65 \<le> n \<and> n \<le> 90 then char_of (n + 32) else c)"

definition lower :: "string \<Rightarrow> string" where
  "lower r = map lower_char r"

fun contains :: "string \<Rightarrow> string \<Rightarrow> bool" where
  "contains needle [] = (needle = [])"
| "contains needle (c # cs) = (prefix needle (c # cs) \<or> contains needle cs)"

subsection \<open>Opening and closing\<close>

text \<open>
  The loop of \<open>open\<close> reads until a response names grbl or marlin. A read that gives
  \<open>None\<close> is skipped; every other response is logged first.
\<close>

fun await_banner :: "string option list \<Rightarrow> event list \<Rightarrow> (string option list \<times> event list) option" where
  "await_banner [] evs = None"
| "await_banner (None # rs) evs = await_banner rs evs"
| "await_banner (Some response # rs) evs =
     (let evs1 = evs @ [Log response, Recv response] in
      if contains ''grbl'' (lower response)
        then Some (rs, evs1 @ [Log ''GRBL Connection Established.''])
      else if contains ''marlin'' (lower response)
        then Some (rs, evs1 @ [Log ''Marlin Connection Established.''])
      else await_banner rs evs1)"

definition open_connection :: operation where
  "open_connection s =
     (if connected s then (Returns, s)
      else let s1 = s\<lparr>connected := link_up s\<rparr> in
        if \<not> connected s1 then (Returns, emit (Log ''Could not connect.'') s1)
        else let s2 = emit (Log ''Connecting to GRBL...'') s1 in
          (case await_banner (pending s2) [] of
             None \<Rightarrow> (Hangs, s2\<lparr>pending := []\<rparr>)
           | Some (rest, evs) \<Rightarrow> (Returns, s2\<lparr>pending := rest, trace := trace s2 @ evs\<rparr>)))"

definition close_connection :: "controller \<Rightarrow> controller" where
  "close_connection s = (if connected s then s\<lparr>connected := False\<rparr> else s)"

text \<open>
  \<open>start\<close> opens the connection and notes that a sender thread exists. The thread itself
  is the function \<open>sending_pass\<close> below, run by the scheduler of \<open>run\<close>.
\<close>

definition start :: operation where
  "start s =
     (case open_connection s of
        (Returns, s1) \<Rightarrow> (Returns, if sending_thread s1 then s1 else s1\<lparr>sending_thread := True\<rparr>)
      | r \<Rightarrow> r)"

definition stop :: "controller \<Rightarrow> controller" where
  "stop s = close_connection (s\<lparr>sending_thread := False\<rparr>)"

subsection \<open>The two entry points of the callers\<close>

definition write_data :: "string \<Rightarrow> operation" where
  "write_data data s =
     (case start s of
        (Returns, s1) \<Rightarrow>
          (Returns, s1\<lparr>sending_queue := sending_queue s1 @ [data]\<rparr>)
      | r \<Rightarrow> r)"

text \<open>The cancel control code is the character 0x18.\<close>

definition cancel_code :: char where
  "cancel_code = CHR 0x18"

definition realtime :: "string \<Rightarrow> operation" where
  "realtime data s =
     (case start s of
        (Returns, s1) \<Rightarrow>
          (let s2 = s1\<lparr>realtime_queue := realtime_queue s1 @ [data]\<rparr>;
               s3 = (if cancel_code \<in> set data then s2\<lparr>sending_queue := []\<rparr> else s2)
           in (Returns, s3))
      | r \<Rightarrow> r)"

subsection \<open>Receiving\<close>

text \<open>
  \<open>_recv_response\<close> first reads until a response is neither \<open>None\<close> nor empty.
\<close>

fun read_response :: "string option list \<Rightarrow> (string \<times> string option list) option" where
  "read_response [] = None"
| "read_response (None # rs) = read_response rs"
| "read_response (Some r # rs) = (if r = [] then read_response rs else Some (r, rs))"

text \<open>
  On ok the oldest line in flight is popped and its length taken off the count. The pop
  of an empty list raises IndexError inside the \<open>try\<close>; the handler logs and raises
  ConnectionAbortedError. The other responses leave the lines in flight alone: an echo
  goes to the console, an alarm and an error are signalled to the service, an error is
  logged as well, and anything else is logged as data.
\<close>

definition recv_response :: operation where
  "recv_response s =
     (case read_response (pending s) of
        None \<Rightarrow> (Hangs, s\<lparr>pending := []\<rparr>)
      | Some (response, rest) \<Rightarrow>
          (let s1 = emit (Recv response) (s\<lparr>pending := rest\<rparr>) in
           if response = ''ok'' then
             (case commands_in_device_buffer s1 of
                [] \<Rightarrow> (Raises ConnectionAbortedError,
                        emit (Log (''Response: '' @ response @ '', but this was unexpected'')) s1)
              | line # others \<Rightarrow>
                  (Returns,
                   emit (Log (''Response: '' @ response))
                     (s1\<lparr>commands_in_device_buffer := others,
                         buffered_characters := buffered_characters s1 - int (length line)\<rparr>)))
           else if prefix ''echo:'' response then
             (Returns, emit (Console (drop 5 response)) s1)
           else if prefix ''ALARM'' response then (Returns, s1)
           else if prefix ''error'' response then
             (Returns, emit (Log (''ERROR: '' @ response)) s1)
           else (Returns, emit (Log (''Data: '' @ response)) s1)))"

subsection \<open>Sending\<close>

text \<open>
  Both operations read the first line of their queue first, which raises IndexError on an
  empty queue, before anything is written.
\<close>

definition sending_realtime :: operation where
  "sending_realtime s =
     (case realtime_queue s of
        [] \<Rightarrow> (Raises IndexError, s)
      | line # rest \<Rightarrow> (Returns, (emit (SendRealtime line) s)\<lparr>realtime_queue := rest\<rparr>))"

definition sending_single_line :: operation where
  "sending_single_line s =
     (case sending_queue s of
        [] \<Rightarrow> (Raises IndexError, s)
      | line # rest \<Rightarrow>
          (Returns,
           (emit (SendLine line) s)
             \<lparr>sending_queue := rest,
              commands_in_device_buffer := commands_in_device_buffer s @ [line],
              buffered_characters := buffered_characters s + int (length line)\<rparr>))"

definition length_of_next_line :: "controller \<Rightarrow> int" where
  "length_of_next_line s = (case sending_queue s of [] \<Rightarrow> 0 | line # _ \<Rightarrow> int (length line))"

text \<open>The three loops of the sender: each body shortens the list its loop tests.\<close>

function drain_realtime :: operation where
  "drain_realtime s =
     (if realtime_queue s \<noteq> [] then
        (case sending_realtime s of (Returns, s1) \<Rightarrow> drain_realtime s1 | r \<Rightarrow> r)
      else (Returns, s))"
  by pat_completeness auto
termination
  by (relation "measure (\<lambda>s. length (realtime_queue s))")
     (auto simp: sending_realtime_def emit_def split: list.splits)

definition room_for_next :: "controller \<Rightarrow> bool" where
  "room_for_next s =
     (sending_queue s \<noteq> [] \<and>
      device_buffer_size s > buffered_characters s + length_of_next_line s)"

function send_while_room :: operation where
  "send_while_room s =
     (if room_for_next s then
        (case sending_single_line s of (Returns, s1) \<Rightarrow> send_while_room s1 | r \<Rightarrow> r)
      else (Returns, s))"
  by pat_completeness auto
termination
  by (relation "measure (\<lambda>s. length (sending_queue s))")
     (auto simp: sending_single_line_def emit_def split: list.splits)

lemma read_response_shorter:
  "read_response rs = Some (r, rest) \<Longrightarrow> length rest < length rs"
  by (induction rs rule: read_response.induct) (auto split: if_splits)

lemma recv_response_rest:
  "read_response (pending s) = Some (r, rest) \<Longrightarrow> pending (snd (recv_response s)) = rest"
  by (simp add: recv_response_def emit_def Let_def split: list.splits)

lemma recv_response_pending:
  assumes "recv_response s = (Returns, s1)"
  shows "length (pending s1) < length (pending s)"
proof (cases "read_response (pending s)")
  case None
  then show ?thesis using assms by (simp add: recv_response_def)
next
  case (Some p)
  obtain r rest where p: "p = (r, rest)" by (cases p)
  have "pending (snd (recv_response s)) = rest"
    using Some p by (simp add: recv_response_rest)
  with assms have "pending s1 = rest" by simp
  moreover have "length rest < length (pending s)"
    using Some p by (simp add: read_response_shorter)
  ultimately show ?thesis by simp
qed

function drain_responses :: operation where
  "drain_responses s =
     (if commands_in_device_buffer s \<noteq> [] then
        (case recv_response s of (Returns, s1) \<Rightarrow> drain_responses s1 | r \<Rightarrow> r)
      else (Returns, s))"
  by pat_completeness auto
termination
  by (relation "measure (\<lambda>s. length (pending s))")
     (auto dest: recv_response_pending [OF sym])

definition sending_buffered :: operation where
  "sending_buffered s =
     (case drain_realtime s of
        (Returns, s1) \<Rightarrow>
          (case send_while_room s1 of
             (Returns, s2) \<Rightarrow> drain_responses s2
           | r \<Rightarrow> r)
      | r \<Rightarrow> r)"

definition sending_sync :: operation where
  "sending_sync s =
     (case drain_realtime s of
        (Returns, s1) \<Rightarrow>
          (if sending_queue s1 \<noteq> [] then
             (case sending_single_line s1 of
                (Returns, s2) \<Rightarrow> recv_response s2
              | r \<Rightarrow> r)
           else (Returns, s1))
      | r \<Rightarrow> r)"

subsection \<open>The sender thread and its callers\<close>

text \<open>
  One turn of the loop of \<open>_sending\<close>, for a connected controller. With both queues
  empty the thread waits on the condition until a caller notifies it, so nothing happens
  in that turn.
\<close>

definition sending_pass :: operation where
  "sending_pass s =
     (if sending_queue s = [] \<and> realtime_queue s = [] then (Returns, s)
      else if sync_mode s then sending_sync s
      else sending_buffered s)"

text \<open>
  In a run the callers and the sender thread take turns: a caller writes a line, or sends
  a real-time line, or the sender thread runs one whole turn of its loop. When the
  connection is down the loop of the thread ends and \<open>stop\<close>, the result callback of
  the thread, runs. A run ends where an operation raises or waits for ever. A run is a
  schedule in which no caller acts while a turn of the sender is under way; the schedules
  in which one does are those of \<open>interleave\<close> below.
\<close>

datatype action = Write string | Realtime string | Pass

fun step :: "action \<Rightarrow> operation" where
  "step (Write data) s = write_data data s"
| "step (Realtime data) s = realtime data s"
| "step Pass s =
     (if sending_thread s then
        (if connected s then sending_pass s else (Returns, stop s))
      else (Returns, s))"

fun run :: "action list \<Rightarrow> operation" where
  "run [] s = (Returns, s)"
| "run (a # as) s = (case step a s of (Returns, s1) \<Rightarrow> run as s1 | r \<Rightarrow> r)"

text \<open>
  The sender takes the lock only to wait. Its reads, writes and pops of the two queues
  (lines 216 to 219, 227 to 233 and 257) are not under the lock, so a caller can act
  between any two of them. \<open>_sending_single_line\<close> reads the first line of the queue
  at line 227 and pops the queue at line 233; \<open>send_line\<close> is what it does from line
  228 on with the line that it has read, on the queue as the callers have left it by
  then. The pop raises IndexError when the queue has been cleared in between.
\<close>

definition send_line :: "string \<Rightarrow> operation" where
  "send_line line s =
     (let s1 = (emit (SendLine line) s)
                 \<lparr>commands_in_device_buffer := commands_in_device_buffer s @ [line],
                  buffered_characters := buffered_characters s + int (length line)\<rparr>
      in case sending_queue s1 of
           [] \<Rightarrow> (Raises IndexError, s1)
         | head # rest \<Rightarrow> (Returns, s1\<lparr>sending_queue := rest\<rparr>))"

text \<open>
  A schedule at the grain of these accesses: the calls of the callers (and whole turns of
  the sender), a call of \<open>stop\<close>, and the single operations of the sender in any
  order, \<open>Sender_line\<close> with whatever line the sender has read before. Every execution
  of the controller is such a schedule; the loops of the sender allow fewer.
\<close>

datatype access =
    Call action
  | Call_stop
  | Sender_realtime
  | Sender_line string
  | Sender_receive

fun access_step :: "access \<Rightarrow> operation" where
  "access_step (Call a) s = step a s"
| "access_step Call_stop s = (Returns, stop s)"
| "access_step Sender_realtime s = sending_realtime s"
| "access_step (Sender_line line) s = send_line line s"
| "access_step Sender_receive s = recv_response s"

fun interleave :: "access list \<Rightarrow> operation" where
  "interleave [] s = (Returns, s)"
| "interleave (a # as) s =
     (case access_step a s of (Returns, s1) \<Rightarrow> interleave as s1 | r \<Rightarrow> r)"

section \<open>Properties of the GRBL controller\<close>

lemma recv_response_no_IndexError: "fst (recv_response s) \<noteq> Raises IndexError"
  by (simp add: recv_response_def Let_def split: option.splits list.splits prod.splits)

declare drain_realtime.simps [simp del] send_while_room.simps [simp del] drain_responses.simps [simp del]

subsection \<open>The count of buffered characters\<close>

definition buffer_invariant :: "controller \<Rightarrow> bool" where
  "buffer_invariant s =
     (buffered_characters s = (\<Sum>line\<leftarrow>commands_in_device_buffer s. int (length line)))"

text \<open>
  The states of the sending loop of \<open>_sending_buffered\<close>, each taken right after a
  call of \<open>_sending_single_line\<close>.
\<close>

function states_after_sends :: "controller \<Rightarrow> controller list" where
  "states_after_sends s =
     (if room_for_next s then
        (case sending_single_line s of
           (Returns, s1) \<Rightarrow> s1 # states_after_sends s1
         | (r, s1) \<Rightarrow> [s1])
      else [])"
  by pat_completeness auto
termination states_after_sends
  by (relation "measure (\<lambda>s. length (sending_queue s))")
     (auto simp: sending_single_line_def emit_def split: list.splits)

declare states_after_sends.simps [simp del]

lemma inv_emit [simp]: "buffer_invariant (emit e s) = buffer_invariant s"
  by (simp add: buffer_invariant_def emit_def)

lemma inv_init: "buffer_invariant (init_controller n sync up rs)"
  by (simp add: buffer_invariant_def init_controller_def)

lemma inv_open: "buffer_invariant s \<Longrightarrow> buffer_invariant (snd (open_connection s))"
  by (simp add: open_connection_def Let_def buffer_invariant_def emit_def split: option.splits)

lemma inv_start: "buffer_invariant s \<Longrightarrow> buffer_invariant (snd (start s))"
  using inv_open [of s]
  by (cases "open_connection s") (auto simp: start_def buffer_invariant_def split: outcome.splits)

lemma inv_write: "buffer_invariant s \<Longrightarrow> buffer_invariant (snd (write_data d s))"
  using inv_start [of s]
  by (cases "start s") (auto simp: write_data_def Let_def buffer_invariant_def emit_def split: outcome.splits)

lemma inv_realtime: "buffer_invariant s \<Longrightarrow> buffer_invariant (snd (realtime d s))"
  using inv_start [of s]
  by (cases "start s") (auto simp: realtime_def Let_def buffer_invariant_def emit_def split: outcome.splits)

lemma inv_recv: "buffer_invariant s \<Longrightarrow> buffer_invariant (snd (recv_response s))"
  by (simp add: recv_response_def Let_def buffer_invariant_def emit_def split: option.splits list.splits)

lemma inv_sending_realtime: "buffer_invariant s \<Longrightarrow> buffer_invariant (snd (sending_realtime s))"
  by (simp add: sending_realtime_def buffer_invariant_def emit_def split: list.splits)

lemma inv_single: "buffer_invariant s \<Longrightarrow> buffer_invariant (snd (sending_single_line s))"
  by (simp add: sending_single_line_def buffer_invariant_def emit_def split: list.splits)

lemma drain_realtime_preserves:
  assumes step: "\<And>t. P t \<Longrightarrow> P (snd (sending_realtime t))"
    and start: "P s"
  shows "P (snd (drain_realtime s))"
  using start
proof (induction s rule: drain_realtime.induct)
  case (1 s)
  show ?case
  proof (cases "realtime_queue s \<noteq> []")
    case False
    then show ?thesis using "1.prems" by (simp add: drain_realtime.simps)
  next
    case True
    obtain r s1 where e: "sending_realtime s = (r, s1)" by force
    have i1: "P s1" using step [OF "1.prems"] e by simp
    show ?thesis
    proof (cases r)
      case Returns
      have "drain_realtime s = drain_realtime s1"
        using True e Returns by (simp add: drain_realtime.simps [of s])
      moreover have "P (snd (drain_realtime s1))"
        using "1.IH" [OF True e [symmetric] Returns i1] .
      ultimately show ?thesis by simp
    next
      case (Raises x)
      then show ?thesis using True e i1 by (simp add: drain_realtime.simps [of s])
    next
      case Hangs
      then show ?thesis using True e i1 by (simp add: drain_realtime.simps [of s])
    qed
  qed
qed

lemma send_while_room_preserves:
  assumes step: "\<And>t. P t \<Longrightarrow> P (snd (sending_single_line t))"
    and start: "P s"
  shows "P (snd (send_while_room s))"
  using start
proof (induction s rule: send_while_room.induct)
  case (1 s)
  show ?case
  proof (cases "room_for_next s")
    case False
    then show ?thesis using "1.prems" by (simp add: send_while_room.simps)
  next
    case True
    obtain r s1 where e: "sending_single_line s = (r, s1)" by force
    have i1: "P s1" using step [OF "1.prems"] e by simp
    show ?thesis
    proof (cases r)
      case Returns
      have "send_while_room s = send_while_room s1"
        using True e Returns by (simp add: send_while_room.simps [of s])
      moreover have "P (snd (send_while_room s1))"
        using "1.IH" [OF True e [symmetric] Returns i1] .
      ultimately show ?thesis by simp
    next
      case (Raises x)
      then show ?thesis using True e i1 by (simp add: send_while_room.simps [of s])
    next
      case Hangs
      then show ?thesis using True e i1 by (simp add: send_while_room.simps [of s])
    qed
  qed
qed

lemma drain_responses_preserves:
  assumes step: "\<And>t. P t \<Longrightarrow> P (snd (recv_response t))"
    and start: "P s"
  shows "P (snd (drain_responses s))"
  using start
proof (induction s rule: drain_responses.induct)
  case (1 s)
  show ?case
  proof (cases "commands_in_device_buffer s \<noteq> []")
    case False
    then show ?thesis using "1.prems" by (simp add: drain_responses.simps)
  next
    case True
    obtain r s1 where e: "recv_response s = (r, s1)" by force
    have i1: "P s1" using step [OF "1.prems"] e by simp
    show ?thesis
    proof (cases r)
      case Returns
      have "drain_responses s = drain_responses s1"
        using True e Returns by (simp add: drain_responses.simps [of s])
      moreover have "P (snd (drain_responses s1))"
        using "1.IH" [OF True e [symmetric] Returns i1] .
      ultimately show ?thesis by simp
    next
      case (Raises x)
      then show ?thesis using True e i1 by (simp add: drain_responses.simps [of s])
    next
      case Hangs
      then show ?thesis using True e i1 by (simp add: drain_responses.simps [of s])
    qed
  qed
qed

lemma inv_buffered: "buffer_invariant s \<Longrightarrow> buffer_invariant (snd (sending_buffered s))"
proof -
  assume i: "buffer_invariant s"
  obtain r1 s1 where e1: "drain_realtime s = (r1, s1)" by force
  have i1: "buffer_invariant s1"
    using drain_realtime_preserves [of buffer_invariant, OF inv_sending_realtime i] e1 by simp
  obtain r2 s2 where e2: "send_while_room s1 = (r2, s2)" by force
  have i2: "buffer_invariant s2"
    using send_while_room_preserves [of buffer_invariant, OF inv_single i1] e2 by simp
  have i3: "buffer_invariant (snd (drain_responses s2))"
    using drain_responses_preserves [of buffer_invariant, OF inv_recv i2] .
  show ?thesis
    using e1 e2 i1 i2 i3 by (cases r1; cases r2) (simp_all add: sending_buffered_def)
qed

lemma inv_sync: "buffer_invariant s \<Longrightarrow> buffer_invariant (snd (sending_sync s))"
proof -
  assume i: "buffer_invariant s"
  obtain r1 s1 where e1: "drain_realtime s = (r1, s1)" by force
  have i1: "buffer_invariant s1"
    using drain_realtime_preserves [of buffer_invariant, OF inv_sending_realtime i] e1 by simp
  obtain r2 s2 where e2: "sending_single_line s1 = (r2, s2)" by force
  have i2: "buffer_invariant s2"
    using inv_single [OF i1] e2 by simp
  have i3: "buffer_invariant (snd (recv_response s2))"
    using inv_recv [OF i2] .
  show ?thesis
    using e1 e2 i1 i2 i3 by (cases r1; cases r2) (simp_all add: sending_sync_def)
qed

lemma inv_pass: "buffer_invariant s \<Longrightarrow> buffer_invariant (snd (sending_pass s))"
  by (simp add: sending_pass_def inv_sync inv_buffered)

lemma inv_stop: "buffer_invariant s \<Longrightarrow> buffer_invariant (stop s)"
  by (simp add: stop_def close_connection_def buffer_invariant_def)

lemma inv_step: "buffer_invariant s \<Longrightarrow> buffer_invariant (snd (step a s))"
  by (cases a) (simp_all add: inv_write inv_realtime inv_pass inv_stop)

lemma inv_run: "buffer_invariant s \<Longrightarrow> buffer_invariant (snd (run acts s))"
proof (induction acts arbitrary: s)
  case Nil
  then show ?case by simp
next
  case (Cons a acts)
  obtain r s1 where e: "step a s = (r, s1)" by force
  have i1: "buffer_invariant s1" using inv_step [OF Cons.prems, of a] e by simp
  show ?case using e i1 Cons.IH [OF i1] by (cases r) simp_all
qed

lemma room_single_returns:
  "room_for_next s \<Longrightarrow> fst (sending_single_line s) = Returns"
  by (simp add: room_for_next_def sending_single_line_def split: list.splits)

lemma room_single_bound:
  "room_for_next s \<Longrightarrow>
     buffered_characters (snd (sending_single_line s)) < device_buffer_size s
     \<and> device_buffer_size (snd (sending_single_line s)) = device_buffer_size s"
  by (auto simp: room_for_next_def length_of_next_line_def sending_single_line_def emit_def
      split: list.splits)

lemma states_after_sends_bound:
  "t \<in> set (states_after_sends s) \<Longrightarrow> buffered_characters t \<le> device_buffer_size t"
proof (induction s rule: states_after_sends.induct)
  case (1 s)
  show ?case
  proof (cases "room_for_next s")
    case False
    then show ?thesis using "1.prems" by (simp add: states_after_sends.simps [of s])
  next
    case True
    obtain r s1 where e: "sending_single_line s = (r, s1)" by force
    have r: "r = Returns" using room_single_returns [OF True] e by simp
    have b: "buffered_characters s1 \<le> device_buffer_size s1"
      using room_single_bound [OF True] e by simp
    have "states_after_sends s = s1 # states_after_sends s1"
      using True e r by (simp add: states_after_sends.simps [of s])
    then have "t = s1 \<or> t \<in> set (states_after_sends s1)" using "1.prems" by simp
    then show ?thesis
    proof
      assume "t = s1" then show ?thesis using b by simp
    next
      assume "t \<in> set (states_after_sends s1)"
      then show ?thesis using "1.IH" [OF True e [symmetric] r] by simp
    qed
  qed
qed

lemma send_while_room_states:
  "send_while_room s = (Returns, last (s # states_after_sends s))"
proof (induction s rule: send_while_room.induct)
  case (1 s)
  show ?case
  proof (cases "room_for_next s")
    case False
    then show ?thesis
      by (simp add: states_after_sends.simps [of s] send_while_room.simps [of s])
  next
    case True
    obtain r s1 where e: "sending_single_line s = (r, s1)" by force
    have r: "r = Returns" using room_single_returns [OF True] e by simp
    have "send_while_room s = send_while_room s1"
      using True e r by (simp add: send_while_room.simps [of s])
    moreover have "states_after_sends s = s1 # states_after_sends s1"
      using True e r by (simp add: states_after_sends.simps [of s])
    ultimately show ?thesis using "1.IH" [OF True e [symmetric] r] by simp
  qed
qed

lemma states_after_sends_inv:
  "buffer_invariant s \<Longrightarrow> t \<in> set (states_after_sends s) \<Longrightarrow> buffer_invariant t"
proof (induction s rule: states_after_sends.induct)
  case (1 s)
  show ?case
  proof (cases "room_for_next s")
    case False
    then show ?thesis using "1.prems" by (simp add: states_after_sends.simps [of s])
  next
    case True
    obtain r s1 where e: "sending_single_line s = (r, s1)" by force
    have r: "r = Returns" using room_single_returns [OF True] e by simp
    have i1: "buffer_invariant s1" using inv_single [OF "1.prems"(1)] e by simp
    have "states_after_sends s = s1 # states_after_sends s1"
      using True e r by (simp add: states_after_sends.simps [of s])
    then have "t = s1 \<or> t \<in> set (states_after_sends s1)" using "1.prems" by simp
    then show ?thesis
    proof
      assume "t = s1" then show ?thesis using i1 by simp
    next
      assume "t \<in> set (states_after_sends s1)"
      then show ?thesis using "1.IH" [OF True e [symmetric] r i1] by simp
    qed
  qed
qed

definition fill_state :: controller where
  "fill_state =
     (init_controller 12 False True [Some ''ok'', Some ''ok'', Some ''ok'', Some ''ok''])
       \<lparr>connected := True, sending_thread := True,
        sending_queue := [''G0 X1'', ''G1 Y2'', ''G1 X3'']\<rparr>"

subsection \<open>One turn of the sender in buffered mode\<close>

text \<open>
  What the sending loop of \<open>_sending_buffered\<close> sends, said without the controller: the
  lines of the queue, in order, as long as the characters in flight plus the length of the
  next line stay strictly below the capacity.
\<close>

fun fitting :: "int \<Rightarrow> int \<Rightarrow> string list \<Rightarrow> string list" where
  "fitting capacity used [] = []"
| "fitting capacity used (line # rest) =
     (if used + int (length line) < capacity
      then line # fitting capacity (used + int (length line)) rest
      else [])"

text \<open>The acknowledgements in a trace: the responses that are exactly ok.\<close>

definition acks :: "event list \<Rightarrow> nat" where
  "acks t = length (filter (\<lambda>e. e = Recv ''ok'') t)"

lemma drain_realtime_all:
  "drain_realtime s =
     (Returns, s\<lparr>realtime_queue := [], trace := trace s @ map SendRealtime (realtime_queue s)\<rparr>)"
proof (induction "realtime_queue s" arbitrary: s)
  case Nil
  then show ?case by (simp add: drain_realtime.simps [of s])
next
  case (Cons line rest)
  let ?s1 = "(emit (SendRealtime line) s)\<lparr>realtime_queue := rest\<rparr>"
  have q: "realtime_queue s = line # rest" using Cons.hyps(2) by simp
  have e: "sending_realtime s = (Returns, ?s1)" by (simp add: sending_realtime_def q)
  have "drain_realtime s = drain_realtime ?s1"
    by (simp add: drain_realtime.simps [of s] q e)
  also have "\<dots> = (Returns, ?s1\<lparr>realtime_queue := [],
       trace := trace ?s1 @ map SendRealtime (realtime_queue ?s1)\<rparr>)"
    by (rule Cons.hyps(1)) simp
  finally show ?case by (simp add: emit_def q)
qed

lemma fitting_prefix: "prefix (fitting c u q) q"
  by (induction q arbitrary: u) auto

lemma send_while_room_fitting:
  "send_while_room s =
     (Returns,
      s\<lparr>sending_queue :=
           drop (length (fitting (device_buffer_size s) (buffered_characters s) (sending_queue s)))
             (sending_queue s),
        commands_in_device_buffer :=
           commands_in_device_buffer s
           @ fitting (device_buffer_size s) (buffered_characters s) (sending_queue s),
        buffered_characters :=
           buffered_characters s
           + (\<Sum>l\<leftarrow>fitting (device_buffer_size s) (buffered_characters s) (sending_queue s).
                int (length l)),
        trace :=
           trace s
           @ map SendLine (fitting (device_buffer_size s) (buffered_characters s) (sending_queue s))\<rparr>)"
proof (induction "sending_queue s" arbitrary: s)
  case Nil
  then have q: "sending_queue s = []" by simp
  show ?case
    by (simp add: send_while_room.simps [of s] room_for_next_def q)
next
  case (Cons line rest)
  have q: "sending_queue s = line # rest" using Cons.hyps(2) by simp
  show ?case
  proof (cases "room_for_next s")
    case False
    then have "\<not> buffered_characters s + int (length line) < device_buffer_size s"
      by (simp add: room_for_next_def length_of_next_line_def q)
    then show ?thesis using False
      by (simp add: send_while_room.simps [of s] q)
  next
    case True
    then have f: "buffered_characters s + int (length line) < device_buffer_size s"
      by (simp add: room_for_next_def length_of_next_line_def q)
    let ?s1 = "(emit (SendLine line) s)
             \<lparr>sending_queue := rest,
              commands_in_device_buffer := commands_in_device_buffer s @ [line],
              buffered_characters := buffered_characters s + int (length line)\<rparr>"
    have e: "sending_single_line s = (Returns, ?s1)" by (simp add: sending_single_line_def q)
    have "send_while_room s = send_while_room ?s1"
      using True by (simp add: send_while_room.simps [of s] e)
    also have "\<dots> = (Returns,
      ?s1\<lparr>sending_queue :=
           drop (length (fitting (device_buffer_size ?s1) (buffered_characters ?s1) (sending_queue ?s1)))
             (sending_queue ?s1),
        commands_in_device_buffer :=
           commands_in_device_buffer ?s1
           @ fitting (device_buffer_size ?s1) (buffered_characters ?s1) (sending_queue ?s1),
        buffered_characters :=
           buffered_characters ?s1
           + (\<Sum>l\<leftarrow>fitting (device_buffer_size ?s1) (buffered_characters ?s1) (sending_queue ?s1).
                int (length l)),
        trace :=
           trace ?s1
           @ map SendLine (fitting (device_buffer_size ?s1) (buffered_characters ?s1) (sending_queue ?s1))\<rparr>)"
      by (rule Cons.hyps(1)) simp
    finally show ?thesis using f by (simp add: emit_def q)
  qed
qed

lemma recv_response_ack:
  assumes "recv_response s = (Returns, s1)"
  shows "(\<exists>l. commands_in_device_buffer s = l # commands_in_device_buffer s1
              \<and> acks (trace s1) = acks (trace s) + 1)
         \<or> (commands_in_device_buffer s1 = commands_in_device_buffer s
              \<and> acks (trace s1) = acks (trace s))"
  using assms
  by (auto simp: recv_response_def Let_def emit_def acks_def
      split: option.splits list.splits if_splits)

lemma drain_responses_acks:
  "drain_responses s = (Returns, s') \<Longrightarrow>
     commands_in_device_buffer s' = []
     \<and> acks (trace s') = acks (trace s) + length (commands_in_device_buffer s)"
proof (induction s rule: drain_responses.induct)
  case (1 s)
  show ?case
  proof (cases "commands_in_device_buffer s \<noteq> []")
    case False
    then show ?thesis using "1.prems" by (simp add: drain_responses.simps [of s])
  next
    case True
    obtain r s1 where e: "recv_response s = (r, s1)" by force
    have r: "r = Returns"
      using "1.prems" True e by (cases r) (simp_all add: drain_responses.simps [of s])
    have d: "drain_responses s1 = (Returns, s')"
      using "1.prems" True e r by (simp add: drain_responses.simps [of s])
    have ih: "commands_in_device_buffer s' = []
        \<and> acks (trace s') = acks (trace s1) + length (commands_in_device_buffer s1)"
      using "1.IH" [OF True e [symmetric] r d] .
    show ?thesis
      using recv_response_ack [OF e [unfolded r]] ih by auto
  qed
qed

lemma sending_buffered_eq:
  "sending_buffered s =
     drain_responses
       (s\<lparr>realtime_queue := [],
          sending_queue :=
            drop (length (fitting (device_buffer_size s) (buffered_characters s) (sending_queue s)))
              (sending_queue s),
          commands_in_device_buffer :=
            commands_in_device_buffer s
            @ fitting (device_buffer_size s) (buffered_characters s) (sending_queue s),
          buffered_characters :=
            buffered_characters s
            + (\<Sum>l\<leftarrow>fitting (device_buffer_size s) (buffered_characters s) (sending_queue s).
                 int (length l)),
          trace :=
            trace s @ map SendRealtime (realtime_queue s)
            @ map SendLine (fitting (device_buffer_size s) (buffered_characters s) (sending_queue s))\<rparr>)"
  by (simp add: sending_buffered_def drain_realtime_all send_while_room_fitting)

definition exact_fit :: controller where
  "exact_fit =
     (init_controller 10 False True [])
       \<lparr>connected := True, sending_thread := True, sending_queue := [''G0 X10 Y10'']\<rparr>"

lemma exact_fit_buffered: "sending_buffered exact_fit = (Returns, exact_fit)"
  by (simp add: sending_buffered_eq exact_fit_def init_controller_def drain_responses.simps)

subsection \<open>What the sender writes, and in which order\<close>

text \<open>
  The lines of the normal queue written to the device, the real-time lines written to it
  and the responses read, each in the order of the trace. \<open>sends_alternate w t\<close> tells
  that no two lines of the normal queue are written in \<open>t\<close> without a response read
  between them, \<open>w\<close> telling whether a line is already waiting for its response.
\<close>

definition lines_sent :: "event list \<Rightarrow> string list" where
  "lines_sent t = concat (map (\<lambda>e. case e of SendLine l \<Rightarrow> [l] | _ \<Rightarrow> []) t)"

definition realtime_sent :: "event list \<Rightarrow> string list" where
  "realtime_sent t = concat (map (\<lambda>e. case e of SendRealtime l \<Rightarrow> [l] | _ \<Rightarrow> []) t)"

definition responses :: "event list \<Rightarrow> string list" where
  "responses t = concat (map (\<lambda>e. case e of Recv r \<Rightarrow> [r] | _ \<Rightarrow> []) t)"

fun sends_alternate :: "bool \<Rightarrow> event list \<Rightarrow> bool" where
  "sends_alternate w [] = True"
| "sends_alternate w (SendLine l # es) = (\<not> w \<and> sends_alternate True es)"
| "sends_alternate w (Recv r # es) = sends_alternate False es"
| "sends_alternate w (e # es) = sends_alternate w es"

fun awaiting :: "bool \<Rightarrow> event list \<Rightarrow> bool" where
  "awaiting w [] = w"
| "awaiting w (SendLine l # es) = awaiting True es"
| "awaiting w (Recv r # es) = awaiting False es"
| "awaiting w (e # es) = awaiting w es"

definition settled :: "event list \<Rightarrow> bool" where
  "settled t = (sends_alternate False t \<and> \<not> awaiting False t)"

lemma awaiting_append: "awaiting w (xs @ ys) = awaiting (awaiting w xs) ys"
  by (induction w xs rule: awaiting.induct) simp_all

lemma sends_alternate_append:
  "sends_alternate w (xs @ ys) = (sends_alternate w xs \<and> sends_alternate (awaiting w xs) ys)"
  by (induction w xs rule: sends_alternate.induct) simp_all

lemma settled_append_quiet:
  "settled t \<Longrightarrow> sends_alternate False es \<Longrightarrow> \<not> awaiting False es \<Longrightarrow> settled (t @ es)"
  by (simp add: settled_def sends_alternate_append awaiting_append)

lemma quiet_realtime:
  "sends_alternate w (map SendRealtime q) \<and> awaiting w (map SendRealtime q) = w"
  by (induction q) simp_all

lemma await_banner_quiet:
  "await_banner rs evs = Some (rest, evs') \<Longrightarrow>
     sends_alternate False evs \<Longrightarrow> \<not> awaiting False evs \<Longrightarrow>
     sends_alternate False evs' \<and> \<not> awaiting False evs'"
proof (induction rs evs rule: await_banner.induct)
  case (1 evs)
  then show ?case by simp
next
  case (2 rs evs)
  then show ?case by simp
next
  case (3 response rs evs)
  have q: "sends_alternate False (evs @ [Log response, Recv response])
      \<and> \<not> awaiting False (evs @ [Log response, Recv response])"
    using "3.prems" by (simp add: sends_alternate_append awaiting_append)
  show ?case
  proof (cases "contains ''grbl'' (lower response)")
    case True
    then show ?thesis using "3.prems"(1) q
      by (auto simp: Let_def sends_alternate_append awaiting_append)
  next
    case False
    note g = this
    show ?thesis
    proof (cases "contains ''marlin'' (lower response)")
      case True
      then show ?thesis using "3.prems"(1) q g
        by (auto simp: Let_def sends_alternate_append awaiting_append)
    next
      case False
      have "await_banner rs (evs @ [Log response, Recv response]) = Some (rest, evs')"
        using "3.prems"(1) g False by (simp add: Let_def)
      then show ?thesis
        using "3.IH" [OF refl g False] q by simp
    qed
  qed
qed

lemma settled_open:
  "settled (trace s) \<Longrightarrow> settled (trace (snd (open_connection s)))"
proof -
  assume j: "settled (trace s)"
  show ?thesis
  proof (cases "await_banner (pending s) []")
    case None
    then show ?thesis using j
      by (simp add: open_connection_def Let_def emit_def settled_def
          sends_alternate_append awaiting_append)
  next
    case (Some p)
    obtain rest evs where p: "p = (rest, evs)" by (cases p)
    have "sends_alternate False evs \<and> \<not> awaiting False evs"
      using await_banner_quiet [of "pending s" "[]" rest evs] Some p by simp
    then show ?thesis using j Some p
      by (simp add: open_connection_def Let_def emit_def settled_def
          sends_alternate_append awaiting_append)
  qed
qed

lemma start_cases:
  "start s = (r, s1) \<Longrightarrow>
     trace s1 = trace (snd (open_connection s)) \<and> sync_mode s1 = sync_mode s
     \<and> sending_queue s1 = sending_queue s \<and> realtime_queue s1 = realtime_queue s"
  by (cases "open_connection s")
     (auto simp: start_def open_connection_def Let_def emit_def
       split: outcome.splits if_splits option.splits)

lemma settled_write:
  "settled (trace s) \<Longrightarrow> settled (trace (snd (write_data d s)))
     \<and> sync_mode (snd (write_data d s)) = sync_mode s"
proof -
  assume j: "settled (trace s)"
  obtain r s1 where e: "start s = (r, s1)" by force
  have "settled (trace s1) \<and> sync_mode s1 = sync_mode s"
    using start_cases [OF e] settled_open [OF j] by simp
  then show ?thesis using e by (cases r) (simp_all add: write_data_def)
qed

lemma settled_realtime:
  "settled (trace s) \<Longrightarrow> settled (trace (snd (realtime d s)))
     \<and> sync_mode (snd (realtime d s)) = sync_mode s"
proof -
  assume j: "settled (trace s)"
  obtain r s1 where e: "start s = (r, s1)" by force
  have "settled (trace s1) \<and> sync_mode s1 = sync_mode s"
    using start_cases [OF e] settled_open [OF j] by simp
  then show ?thesis using e by (cases r) (simp_all add: realtime_def Let_def)
qed

lemma recv_response_trace:
  "(fst (recv_response s) = Hangs \<longrightarrow> trace (snd (recv_response s)) = trace s)
   \<and> (fst (recv_response s) \<noteq> Hangs \<longrightarrow>
        (\<exists>r es. trace (snd (recv_response s)) = trace s @ Recv r # es
                \<and> lines_sent es = [] \<and> responses es = [] \<and> realtime_sent es = []
                \<and> sends_alternate False es \<and> \<not> awaiting False es))
   \<and> sync_mode (snd (recv_response s)) = sync_mode s"
  by (simp add: recv_response_def Let_def emit_def lines_sent_def responses_def realtime_sent_def
      split: option.splits list.splits)

lemma sending_sync_eq:
  "sending_sync s =
     (case sending_queue s of
        [] \<Rightarrow> (Returns, s\<lparr>realtime_queue := [],
                          trace := trace s @ map SendRealtime (realtime_queue s)\<rparr>)
      | line # rest \<Rightarrow>
          recv_response
            (s\<lparr>realtime_queue := [], sending_queue := rest,
               commands_in_device_buffer := commands_in_device_buffer s @ [line],
               buffered_characters := buffered_characters s + int (length line),
               trace := trace s @ map SendRealtime (realtime_queue s) @ [SendLine line]\<rparr>))"
proof (cases "sending_queue s")
  case Nil
  then show ?thesis by (simp add: sending_sync_def drain_realtime_all)
next
  case (Cons line rest)
  have "(emit (SendLine line)
           (s\<lparr>realtime_queue := [], trace := trace s @ map SendRealtime (realtime_queue s)\<rparr>))
          \<lparr>sending_queue := rest,
           commands_in_device_buffer := commands_in_device_buffer s @ [line],
           buffered_characters := buffered_characters s + int (length line)\<rparr>
        = s\<lparr>realtime_queue := [], sending_queue := rest,
               commands_in_device_buffer := commands_in_device_buffer s @ [line],
               buffered_characters := buffered_characters s + int (length line),
               trace := trace s @ map SendRealtime (realtime_queue s) @ [SendLine line]\<rparr>"
    by (rule controller.equality) (simp_all add: emit_def)
  then show ?thesis
    by (simp add: sending_sync_def drain_realtime_all sending_single_line_def Cons)
qed

lemma sending_sync_alternates:
  assumes "settled (trace s)"
  shows "sends_alternate False (trace (snd (sending_sync s)))
       \<and> (fst (sending_sync s) \<noteq> Hangs \<longrightarrow> settled (trace (snd (sending_sync s))))
       \<and> sync_mode (snd (sending_sync s)) = sync_mode s"
proof (cases "sending_queue s")
  case Nil
  then show ?thesis using assms
    by (simp add: sending_sync_eq settled_def sends_alternate_append awaiting_append quiet_realtime)
next
  case (Cons line rest)
  let ?s1 = "s\<lparr>realtime_queue := [], sending_queue := rest,
               commands_in_device_buffer := commands_in_device_buffer s @ [line],
               buffered_characters := buffered_characters s + int (length line),
               trace := trace s @ map SendRealtime (realtime_queue s) @ [SendLine line]\<rparr>"
  have e: "sending_sync s = recv_response ?s1" by (simp add: sending_sync_eq Cons)
  have a: "sends_alternate False (trace ?s1) \<and> awaiting False (trace ?s1)"
    using assms
    by (simp add: settled_def sends_alternate_append awaiting_append quiet_realtime)
  show ?thesis
  proof (cases "fst (recv_response ?s1) = Hangs")
    case True
    then show ?thesis using recv_response_trace [of ?s1] a e by simp
  next
    case False
    then obtain r es where t: "trace (snd (recv_response ?s1)) = trace ?s1 @ Recv r # es"
      and q: "sends_alternate False es" "\<not> awaiting False es"
      using recv_response_trace [of ?s1] by blast
    have "settled (trace (snd (recv_response ?s1)))"
      unfolding t settled_def using a q
      by (simp add: sends_alternate_append awaiting_append)
    then show ?thesis using recv_response_trace [of ?s1] e by (simp add: settled_def)
  qed
qed

lemma sync_step:
  assumes "sync_mode s" and "settled (trace s)"
  shows "sends_alternate False (trace (snd (step a s)))
       \<and> (fst (step a s) = Returns \<longrightarrow>
            settled (trace (snd (step a s))) \<and> sync_mode (snd (step a s)))"
proof (cases a)
  case (Write d)
  then show ?thesis using settled_write [OF assms(2), of d] assms(1)
    by (simp add: settled_def)
next
  case (Realtime d)
  then show ?thesis using settled_realtime [OF assms(2), of d] assms(1)
    by (simp add: settled_def)
next
  case Pass
  show ?thesis
    using sending_sync_alternates [OF assms(2)] assms
    by (simp add: Pass sending_pass_def stop_def close_connection_def settled_def)
qed

lemma sync_run:
  "sync_mode s \<Longrightarrow> settled (trace s) \<Longrightarrow> sends_alternate False (trace (snd (run acts s)))"
proof (induction acts arbitrary: s)
  case Nil
  then show ?case by (simp add: settled_def)
next
  case (Cons a acts)
  obtain r s1 where e: "step a s = (r, s1)" by force
  show ?case
  proof (cases r)
    case Returns
    then have "sync_mode s1" "settled (trace s1)"
      using sync_step [OF Cons.prems, of a] e by simp_all
    then show ?thesis using Cons.IH e Returns by simp
  next
    case (Raises x)
    then show ?thesis using sync_step [OF Cons.prems, of a] e by simp
  next
    case Hangs
    then show ?thesis using sync_step [OF Cons.prems, of a] e by simp
  qed
qed

lemma projections_realtime:
  "lines_sent (map SendRealtime q) = [] \<and> responses (map SendRealtime q) = []
   \<and> realtime_sent (map SendRealtime q) = q"
  by (induction q) (simp_all add: lines_sent_def responses_def realtime_sent_def)

lemma projections_append:
  "lines_sent (xs @ ys) = lines_sent xs @ lines_sent ys"
  "responses (xs @ ys) = responses xs @ responses ys"
  "realtime_sent (xs @ ys) = realtime_sent xs @ realtime_sent ys"
  by (simp_all add: lines_sent_def responses_def realtime_sent_def)

lemma sending_sync_one_line:
  assumes "sending_queue s = line # rest"
  shows "lines_sent (trace (snd (sending_sync s))) = lines_sent (trace s) @ [line]
       \<and> realtime_sent (trace (snd (sending_sync s))) = realtime_sent (trace s) @ realtime_queue s
       \<and> (fst (sending_sync s) = Hangs \<longrightarrow>
            responses (trace (snd (sending_sync s))) = responses (trace s))
       \<and> (fst (sending_sync s) \<noteq> Hangs \<longrightarrow>
            (\<exists>r. responses (trace (snd (sending_sync s))) = responses (trace s) @ [r]))"
proof -
  let ?s1 = "s\<lparr>realtime_queue := [], sending_queue := rest,
               commands_in_device_buffer := commands_in_device_buffer s @ [line],
               buffered_characters := buffered_characters s + int (length line),
               trace := trace s @ map SendRealtime (realtime_queue s) @ [SendLine line]\<rparr>"
  have e: "sending_sync s = recv_response ?s1" by (simp add: sending_sync_eq assms)
  have p: "lines_sent (trace ?s1) = lines_sent (trace s) @ [line]"
    "realtime_sent (trace ?s1) = realtime_sent (trace s) @ realtime_queue s"
    "responses (trace ?s1) = responses (trace s)"
    by (simp_all add: projections_append projections_realtime)
       (simp_all add: lines_sent_def realtime_sent_def responses_def)
  show ?thesis
  proof (cases "fst (recv_response ?s1) = Hangs")
    case True
    then show ?thesis using recv_response_trace [of ?s1] e p by simp
  next
    case False
    then obtain r es where t: "trace (snd (recv_response ?s1)) = trace ?s1 @ Recv r # es"
      and q: "lines_sent es = []" "responses es = []" "realtime_sent es = []"
      using recv_response_trace [of ?s1] by blast
    have c: "lines_sent (Recv r # es) = []" "responses (Recv r # es) = [r]"
       "realtime_sent (Recv r # es) = []"
      using q by (simp_all add: lines_sent_def responses_def realtime_sent_def)
    have "lines_sent (trace (snd (recv_response ?s1))) = lines_sent (trace s) @ [line]"
      "realtime_sent (trace (snd (recv_response ?s1))) = realtime_sent (trace s) @ realtime_queue s"
      "responses (trace (snd (recv_response ?s1))) = responses (trace s) @ [r]"
      unfolding t projections_append [of "trace ?s1"] c p by simp_all
    then show ?thesis using False e by simp
  qed
qed

lemma sending_sync_no_line:
  assumes "sending_queue s = []"
  shows "fst (sending_sync s) = Returns
       \<and> lines_sent (trace (snd (sending_sync s))) = lines_sent (trace s)
       \<and> responses (trace (snd (sending_sync s))) = responses (trace s)
       \<and> realtime_sent (trace (snd (sending_sync s))) = realtime_sent (trace s) @ realtime_queue s"
  by (simp add: sending_sync_eq assms projections_append projections_realtime)

definition busy_state :: controller where
  "busy_state =
     (init_controller 128 True True [Some ''echo:busy: processing'', Some ''ok'', Some ''ok''])
       \<lparr>connected := True, sending_thread := True,
        sending_queue := [''G0 X1'', ''G1 Y2'']\<rparr>"

text \<open>
  Claim C6. In synchronous mode a turn of the sender first writes the whole real-time
  queue and then, when the normal queue is not empty, writes one line of it and reads one
  acknowledgement before it goes on. The writes and the reads do alternate
  (\<open>sync_run\<close>), but the one read of the turn takes the next response whatever it is,
  where the documentation of \<open>_sending_sync\<close> says that it waits for one ok. With a
  device that answers the first line by an echo before its ok, the turn returns with
  that line still in flight and no ok read, and the next turn writes the second line.
\<close>

theorem sending_sync_proceeds_without_ok:
  "sync_mode busy_state
   \<and> fst (sending_sync busy_state) = Returns
   \<and> trace (snd (sending_sync busy_state)) =
       [SendLine ''G0 X1'', Recv ''echo:busy: processing'', Console ''busy: processing'']
   \<and> commands_in_device_buffer (snd (sending_sync busy_state)) = [''G0 X1'']
   \<and> pending (snd (sending_sync busy_state)) = [Some ''ok'', Some ''ok'']
   \<and> trace (snd (run [Pass, Pass] busy_state)) =
       [SendLine ''G0 X1'', Recv ''echo:busy: processing'', Console ''busy: processing'',
        SendLine ''G1 Y2'', Recv ''ok'', Log ''Response: ok'']
   \<and> commands_in_device_buffer (snd (run [Pass, Pass] busy_state)) = [''G1 Y2'']"
  by (simp add: busy_state_def init_controller_def sending_pass_def sending_sync_eq
      recv_response_def emit_def)

subsection \<open>A real-time line with the cancel code\<close>







lemma fitting_Nil: "fitting c u [] = []"
  by simp

lemma sending_buffered_no_line:
  assumes "sending_queue s = []"
  shows "sending_buffered s =
     drain_responses (s\<lparr>realtime_queue := [],
        trace := trace s @ map SendRealtime (realtime_queue s)\<rparr>)"
proof -
  have "s\<lparr>realtime_queue := [], sending_queue := [],
          trace := trace s @ map SendRealtime (realtime_queue s)\<rparr>
      = s\<lparr>realtime_queue := [], trace := trace s @ map SendRealtime (realtime_queue s)\<rparr>"
    by (rule controller.equality) (simp_all add: assms)
  note e = this
  have "sending_buffered s =
     drain_responses (s\<lparr>realtime_queue := [], sending_queue := [],
        trace := trace s @ map SendRealtime (realtime_queue s)\<rparr>)"
    by (simp add: sending_buffered_eq assms)
  then show ?thesis by (simp only: e)
qed





subsection \<open>The responses that a turn in buffered mode waits for\<close>

text \<open>
  The number of responses ok that the device still delivers. The loop that reads the
  responses returns when there is one ok for every line in flight, and waits for ever
  when there are fewer: it raises nothing, since it reads only while a line is in flight.
\<close>

definition oks :: "string option list \<Rightarrow> nat" where
  "oks rs = length (filter (\<lambda>r. r = Some ''ok'') rs)"

lemma read_response_oks:
  "read_response rs = Some (r, rest) \<Longrightarrow> oks rs = oks rest + (if r = ''ok'' then 1 else 0)"
  by (induction rs rule: read_response.induct) (auto simp: oks_def split: if_splits)

lemma read_response_none_oks: "read_response rs = None \<Longrightarrow> oks rs = 0"
  by (induction rs rule: read_response.induct) (auto simp: oks_def split: if_splits)

lemma recv_response_in_flight:
  assumes "commands_in_device_buffer s = l # others"
  shows "(read_response (pending s) = None \<longrightarrow> fst (recv_response s) = Hangs)
       \<and> (\<forall>r rest. read_response (pending s) = Some (r, rest) \<longrightarrow>
             fst (recv_response s) = Returns
             \<and> pending (snd (recv_response s)) = rest
             \<and> commands_in_device_buffer (snd (recv_response s))
                 = (if r = ''ok'' then others else l # others))"
  using assms by (simp add: recv_response_def Let_def emit_def)

lemma drain_responses_outcome:
  "fst (drain_responses s) =
     (if length (commands_in_device_buffer s) \<le> oks (pending s) then Returns else Hangs)"
proof (induction s rule: drain_responses.induct)
  case (1 s)
  show ?case
  proof (cases "commands_in_device_buffer s")
    case Nil
    then show ?thesis by (simp add: drain_responses.simps [of s])
  next
    case (Cons l others)
    note f = recv_response_in_flight [OF Cons]
    obtain r s1 where e: "recv_response s = (r, s1)" by force
    show ?thesis
    proof (cases "read_response (pending s)")
      case None
      then have "r = Hangs" using f e by simp
      then show ?thesis
        using e Cons read_response_none_oks [OF None]
        by (simp add: drain_responses.simps [of s])
    next
      case (Some p)
      obtain resp rest where p: "p = (resp, rest)" by (cases p)
      have g: "r = Returns" "pending s1 = rest"
        "commands_in_device_buffer s1 = (if resp = ''ok'' then others else l # others)"
        using f Some p e by auto
      have o: "oks (pending s) = oks rest + (if resp = ''ok'' then 1 else 0)"
        using read_response_oks Some p by simp
      have n: "commands_in_device_buffer s \<noteq> []" using Cons by simp
      have "fst (drain_responses s) = fst (drain_responses s1)"
        using e g(1) n by (simp add: drain_responses.simps [of s])
      also have "\<dots> = (if length (commands_in_device_buffer s1) \<le> oks (pending s1)
                        then Returns else Hangs)"
        using "1.IH" [OF n e [symmetric] g(1)] .
      finally show ?thesis using g o Cons by auto
    qed
  qed
qed

lemma drain_responses_total:
  assumes "length (commands_in_device_buffer s) \<le> oks (pending s)"
  shows "\<exists>s'. drain_responses s = (Returns, s')
              \<and> commands_in_device_buffer s' = []
              \<and> acks (trace s') = acks (trace s) + length (commands_in_device_buffer s)"
proof -
  have "fst (drain_responses s) = Returns" using assms by (simp add: drain_responses_outcome)
  then obtain s' where d: "drain_responses s = (Returns, s')"
    by (cases "drain_responses s") simp
  then show ?thesis using drain_responses_acks [OF d] by simp
qed

definition quiet_line :: "string list \<Rightarrow> string list \<Rightarrow> controller \<Rightarrow> bool" where
  "quiet_line L q s = (sending_queue s = q \<and> lines_sent (trace s) = L)"

lemma quiet_line_recv: "quiet_line L q s \<Longrightarrow> quiet_line L q (snd (recv_response s))"
  by (simp add: quiet_line_def recv_response_def Let_def emit_def lines_sent_def
      split: option.splits list.splits)

text \<open>
  Claim C7, as amended. One turn in buffered mode first sends the whole real-time queue,
  then sends the lines of the normal queue that fit strictly, in order (they are a prefix
  of the queue, they join the lines in flight and their lengths the count), and then
  reads responses until nothing is in flight. That loop returns exactly when the device
  delivers an ok for every line in flight, and otherwise waits for ever; when it returns
  it has read one ok for each line that was in flight, has sent no further line and has
  left the queue alone.
\<close>

theorem sending_buffered_strictly_fitting:
  "let sent = fitting (device_buffer_size s) (buffered_characters s) (sending_queue s);
       s2 = s\<lparr>realtime_queue := [],
              sending_queue := drop (length sent) (sending_queue s),
              commands_in_device_buffer := commands_in_device_buffer s @ sent,
              buffered_characters := buffered_characters s + (\<Sum>l\<leftarrow>sent. int (length l)),
              trace := trace s @ map SendRealtime (realtime_queue s) @ map SendLine sent\<rparr>
   in sending_buffered s = drain_responses s2
      \<and> prefix sent (sending_queue s)
      \<and> fst (drain_responses s2) =
          (if length (commands_in_device_buffer s2) \<le> oks (pending s2) then Returns else Hangs)
      \<and> (\<forall>s'. drain_responses s2 = (Returns, s') \<longrightarrow>
             commands_in_device_buffer s' = []
             \<and> sending_queue s' = sending_queue s2
             \<and> acks (trace s') = acks (trace s2) + length (commands_in_device_buffer s2)
             \<and> lines_sent (trace s') = lines_sent (trace s) @ sent)"
proof -
  define sent where "sent = fitting (device_buffer_size s) (buffered_characters s) (sending_queue s)"
  define s2 where "s2 = s\<lparr>realtime_queue := [],
              sending_queue := drop (length sent) (sending_queue s),
              commands_in_device_buffer := commands_in_device_buffer s @ sent,
              buffered_characters := buffered_characters s + (\<Sum>l\<leftarrow>sent. int (length l)),
              trace := trace s @ map SendRealtime (realtime_queue s) @ map SendLine sent\<rparr>"
  have e: "sending_buffered s = drain_responses s2"
    unfolding s2_def sent_def by (rule sending_buffered_eq)
  have p: "prefix sent (sending_queue s)" unfolding sent_def by (rule fitting_prefix)
  have o: "fst (drain_responses s2) =
          (if length (commands_in_device_buffer s2) \<le> oks (pending s2) then Returns else Hangs)"
    by (rule drain_responses_outcome)
  have l2: "lines_sent (trace s2) = lines_sent (trace s) @ sent"
    by (simp add: s2_def projections_append projections_realtime)
       (induction sent, simp_all add: lines_sent_def)
  have a: "\<forall>s'. drain_responses s2 = (Returns, s') \<longrightarrow>
             commands_in_device_buffer s' = []
             \<and> sending_queue s' = sending_queue s2
             \<and> acks (trace s') = acks (trace s2) + length (commands_in_device_buffer s2)
             \<and> lines_sent (trace s') = lines_sent (trace s) @ sent"
  proof (intro allI impI)
    fix s'
    assume d: "drain_responses s2 = (Returns, s')"
    have q: "quiet_line (lines_sent (trace s2)) (sending_queue s2) s2"
      by (simp add: quiet_line_def)
    have "quiet_line (lines_sent (trace s2)) (sending_queue s2) (snd (drain_responses s2))"
      using drain_responses_preserves
        [of "quiet_line (lines_sent (trace s2)) (sending_queue s2)", OF quiet_line_recv q] .
    then show "commands_in_device_buffer s' = []
             \<and> sending_queue s' = sending_queue s2
             \<and> acks (trace s') = acks (trace s2) + length (commands_in_device_buffer s2)
             \<and> lines_sent (trace s') = lines_sent (trace s) @ sent"
      using drain_responses_acks [OF d] d l2 by (simp add: quiet_line_def)
  qed
  show ?thesis
    unfolding Let_def using e p o a unfolding sent_def s2_def by blast
qed

theorem sending_buffered_strictly_fitting_witness:
  "fitting 12 0 [''G0 X1'', ''G1 Y2'', ''G1 X3''] = [''G0 X1'', ''G1 Y2'']
   \<and> oks (pending fill_state) = 4
   \<and> fst (sending_buffered fill_state) = Returns
   \<and> trace (snd (sending_buffered fill_state)) =
       [SendLine ''G0 X1'', SendLine ''G1 Y2'', Recv ''ok'',
        Log ''Response: ok'', Recv ''ok'', Log ''Response: ok'']
   \<and> sending_queue (snd (sending_buffered fill_state)) = [''G1 X3'']
   \<and> commands_in_device_buffer (snd (sending_buffered fill_state)) = []
   \<and> acks (trace (snd (sending_buffered fill_state))) = 2"
  using sending_buffered_strictly_fitting [of fill_state]
  by (simp add: Let_def fill_state_def init_controller_def drain_responses.simps
      recv_response_def emit_def oks_def acks_def)

text \<open>
  Claim C7 as stated fails where the next line would fill the buffer exactly: with a
  capacity of 10, nothing in flight and a line of 10 characters, the turn sends nothing
  and leaves the controller as it was.
\<close>

theorem sending_buffered_exact_fit_counterexample:
  "buffered_characters exact_fit + length_of_next_line exact_fit = device_buffer_size exact_fit
   \<and> sending_queue exact_fit = [''G0 X10 Y10'']
   \<and> sending_buffered exact_fit = (Returns, exact_fit)
   \<and> SendLine ''G0 X10 Y10'' \<notin> set (trace (snd (sending_buffered exact_fit)))"
  by (simp add: exact_fit_buffered)
     (simp add: exact_fit_def init_controller_def length_of_next_line_def)

subsection \<open>An ok that arrives while nothing is in flight\<close>

lemma recv_response_outcome:
  "commands_in_device_buffer s \<noteq> [] \<Longrightarrow>
     fst (recv_response s) = (if read_response (pending s) = None then Hangs else Returns)"
  by (cases "commands_in_device_buffer s")
     (auto simp: recv_response_def Let_def emit_def split: option.splits)

lemma sending_buffered_outcome:
  "fst (sending_buffered s) = Returns \<or> fst (sending_buffered s) = Hangs"
  by (simp add: sending_buffered_eq drain_responses_outcome)

lemma sending_sync_outcome:
  "fst (sending_sync s) = Returns \<or> fst (sending_sync s) = Hangs"
proof (cases "sending_queue s")
  case Nil
  then show ?thesis by (simp add: sending_sync_eq)
next
  case (Cons line rest)
  then show ?thesis by (simp add: sending_sync_eq recv_response_outcome)
qed

lemma sending_pass_outcome:
  "fst (sending_pass s) = Returns \<or> fst (sending_pass s) = Hangs"
  using sending_buffered_outcome [of s] sending_sync_outcome [of s]
  by (simp add: sending_pass_def)

lemma sending_pass_idle:
  assumes "commands_in_device_buffer s = []" and "sending_queue s = []"
  shows "fst (sending_pass s) = Returns
       \<and> pending (snd (sending_pass s)) = pending s
       \<and> responses (trace (snd (sending_pass s))) = responses (trace s)
       \<and> commands_in_device_buffer (snd (sending_pass s)) = []"
  using assms
  by (simp add: sending_pass_def sending_sync_eq sending_buffered_no_line
      drain_responses.simps projections_append projections_realtime)

lemma stray_ok_recv:
  assumes "commands_in_device_buffer s = [line]"
    and "read_response (pending s) = Some (''ok'', rest)"
  shows "recv_response s =
      (Returns, s\<lparr>pending := rest, commands_in_device_buffer := [],
                   buffered_characters := buffered_characters s - int (length line),
                   trace := trace s @ [Recv ''ok'', Log ''Response: ok'']\<rparr>)"
proof -
  have "(emit (Log ''Response: ok'')
          ((emit (Recv ''ok'') (s\<lparr>pending := rest\<rparr>))
             \<lparr>commands_in_device_buffer := [],
              buffered_characters := buffered_characters s - int (length line)\<rparr>))
       = s\<lparr>pending := rest, commands_in_device_buffer := [],
                   buffered_characters := buffered_characters s - int (length line),
                   trace := trace s @ [Recv ''ok'', Log ''Response: ok'']\<rparr>"
    by (rule controller.equality) (simp_all add: emit_def)
  then show ?thesis using assms by (simp add: recv_response_def Let_def emit_def)
qed

lemma stray_ok_acknowledges:
  assumes "commands_in_device_buffer s = []" and "sending_queue s = [line]"
    and "read_response (pending s) = Some (''ok'', rest)"
    and "sync_mode s \<or> room_for_next s"
  shows "fst (sending_pass s) = Returns
       \<and> pending (snd (sending_pass s)) = rest
       \<and> commands_in_device_buffer (snd (sending_pass s)) = []
       \<and> sending_queue (snd (sending_pass s)) = []
       \<and> lines_sent (trace (snd (sending_pass s))) = lines_sent (trace s) @ [line]
       \<and> responses (trace (snd (sending_pass s))) = responses (trace s) @ [''ok'']"
proof (cases "sync_mode s")
  case True
  let ?s1 = "s\<lparr>realtime_queue := [], sending_queue := [],
               commands_in_device_buffer := commands_in_device_buffer s @ [line],
               buffered_characters := buffered_characters s + int (length line),
               trace := trace s @ map SendRealtime (realtime_queue s) @ [SendLine line]\<rparr>"
  have e: "sending_pass s = recv_response ?s1"
    using True assms(2) by (simp add: sending_pass_def sending_sync_eq)
  have "commands_in_device_buffer ?s1 = [line]" "read_response (pending ?s1) = Some (''ok'', rest)"
    using assms by simp_all
  note r = stray_ok_recv [OF this]
  show ?thesis unfolding e r
    by (simp add: projections_append projections_realtime)
       (simp add: lines_sent_def responses_def)
next
  case False
  then have room: "room_for_next s" using assms(4) by simp
  have f: "fitting (device_buffer_size s) (buffered_characters s) (sending_queue s) = [line]"
    using room assms(2) by (simp add: room_for_next_def length_of_next_line_def)
  let ?s1 = "s\<lparr>realtime_queue := [], sending_queue := [],
               commands_in_device_buffer := [line],
               buffered_characters := buffered_characters s + int (length line),
               trace := trace s @ map SendRealtime (realtime_queue s) @ [SendLine line]\<rparr>"
  have eq: "s\<lparr>realtime_queue := [],
          sending_queue := drop (length [line]) (sending_queue s),
          commands_in_device_buffer := commands_in_device_buffer s @ [line],
          buffered_characters := buffered_characters s + (\<Sum>l\<leftarrow>[line]. int (length l)),
          trace := trace s @ map SendRealtime (realtime_queue s) @ map SendLine [line]\<rparr> = ?s1"
    by (rule controller.equality) (simp_all add: assms)
  have "sending_buffered s = drain_responses ?s1"
    by (simp only: sending_buffered_eq f eq)
  then have e: "sending_pass s = drain_responses ?s1"
    using False assms(2) by (simp add: sending_pass_def)
  have "commands_in_device_buffer ?s1 = [line]" "read_response (pending ?s1) = Some (''ok'', rest)"
    using assms by simp_all
  note r = stray_ok_recv [OF this]
  have d: "drain_responses ?s1 = (Returns, snd (recv_response ?s1))"
    unfolding r by (simp add: drain_responses.simps r)
  show ?thesis unfolding e d r
    by (simp add: projections_append projections_realtime)
       (simp add: lines_sent_def responses_def)
qed

text \<open>
  \<open>_recv_response\<close>, when it reads ok with nothing in flight, logs that the response
  was unexpected and raises ConnectionAbortedError, and in no state does it raise
  IndexError. But the sender never calls it in such a state: \<open>_sending_buffered\<close>
  reads only while a line is in flight and \<open>_sending_sync\<close> only after it has sent
  one, so no turn raises ConnectionAbortedError. A turn with nothing in flight and
  nothing to send leaves the responses of the device unread, and the ok that is waiting
  when the next line is sent is read as the acknowledgement of that line.
\<close>

lemma desync_path_not_reached:
  "(\<forall>rest. read_response (pending s) = Some (''ok'', rest)
           \<and> commands_in_device_buffer s = [] \<longrightarrow>
       recv_response s =
         (Raises ConnectionAbortedError,
          s\<lparr>pending := rest,
            trace := trace s @ [Recv ''ok'', Log ''Response: ok, but this was unexpected'']\<rparr>))
   \<and> fst (recv_response s) \<noteq> Raises IndexError
   \<and> (commands_in_device_buffer s \<noteq> [] \<longrightarrow>
         fst (recv_response s) \<noteq> Raises ConnectionAbortedError)
   \<and> fst (sending_buffered s) \<noteq> Raises ConnectionAbortedError
   \<and> fst (sending_sync s) \<noteq> Raises ConnectionAbortedError
   \<and> fst (sending_pass s) \<noteq> Raises ConnectionAbortedError
   \<and> (commands_in_device_buffer s = [] \<and> sending_queue s = [] \<longrightarrow>
         fst (sending_pass s) = Returns
         \<and> pending (snd (sending_pass s)) = pending s
         \<and> responses (trace (snd (sending_pass s))) = responses (trace s))
   \<and> (\<forall>line rest.
         commands_in_device_buffer s = [] \<and> sending_queue s = [line]
         \<and> read_response (pending s) = Some (''ok'', rest)
         \<and> (sync_mode s \<or> room_for_next s) \<longrightarrow>
         fst (sending_pass s) = Returns
         \<and> pending (snd (sending_pass s)) = rest
         \<and> commands_in_device_buffer (snd (sending_pass s)) = []
         \<and> lines_sent (trace (snd (sending_pass s))) = lines_sent (trace s) @ [line]
         \<and> responses (trace (snd (sending_pass s))) = responses (trace s) @ [''ok''])"
proof (intro conjI allI impI)
  fix rest
  assume "read_response (pending s) = Some (''ok'', rest) \<and> commands_in_device_buffer s = []"
  then show "recv_response s =
         (Raises ConnectionAbortedError,
          s\<lparr>pending := rest,
            trace := trace s @ [Recv ''ok'', Log ''Response: ok, but this was unexpected'']\<rparr>)"
    by (simp add: recv_response_def Let_def emit_def)
next
  show "fst (recv_response s) \<noteq> Raises IndexError" by (rule recv_response_no_IndexError)
  show "fst (sending_buffered s) \<noteq> Raises ConnectionAbortedError"
    using sending_buffered_outcome [of s] by auto
  show "fst (sending_sync s) \<noteq> Raises ConnectionAbortedError"
    using sending_sync_outcome [of s] by auto
  show "fst (sending_pass s) \<noteq> Raises ConnectionAbortedError"
    using sending_pass_outcome [of s] by auto
next
  assume "commands_in_device_buffer s \<noteq> []"
  then show "fst (recv_response s) \<noteq> Raises ConnectionAbortedError"
    by (simp add: recv_response_outcome)
next
  assume a: "commands_in_device_buffer s = [] \<and> sending_queue s = []"
  note i = sending_pass_idle [OF conjunct1 [OF a] conjunct2 [OF a]]
  show "fst (sending_pass s) = Returns" using i by simp
  show "pending (snd (sending_pass s)) = pending s" using i by simp
  show "responses (trace (snd (sending_pass s))) = responses (trace s)" using i by simp
next
  fix line rest
  assume a: "commands_in_device_buffer s = [] \<and> sending_queue s = [line]
         \<and> read_response (pending s) = Some (''ok'', rest)
         \<and> (sync_mode s \<or> room_for_next s)"
  then have "commands_in_device_buffer s = []" "sending_queue s = [line]"
    "read_response (pending s) = Some (''ok'', rest)" "sync_mode s \<or> room_for_next s"
    by simp_all
  note k = stray_ok_acknowledges [OF this]
  show "fst (sending_pass s) = Returns" using k by simp
  show "pending (snd (sending_pass s)) = rest" using k by simp
  show "commands_in_device_buffer (snd (sending_pass s)) = []" using k by simp
  show "lines_sent (trace (snd (sending_pass s))) = lines_sent (trace s) @ [line]" using k by simp
  show "responses (trace (snd (sending_pass s))) = responses (trace s) @ [''ok'']" using k by simp
qed




subsection \<open>The count of buffered characters when callers act within a turn\<close>

lemma sending_single_line_split:
  "sending_single_line s =
     (case sending_queue s of
        [] \<Rightarrow> (Raises IndexError, s)
      | line # rest \<Rightarrow> send_line line s)"
proof (cases "sending_queue s")
  case Nil
  then show ?thesis by (simp add: sending_single_line_def)
next
  case (Cons line rest)
  have "(emit (SendLine line) s)
          \<lparr>sending_queue := rest,
           commands_in_device_buffer := commands_in_device_buffer s @ [line],
           buffered_characters := buffered_characters s + int (length line)\<rparr>
      = (emit (SendLine line) s)
          \<lparr>commands_in_device_buffer := commands_in_device_buffer s @ [line],
           buffered_characters := buffered_characters s + int (length line),
           sending_queue := rest\<rparr>"
    by (rule controller.equality) simp_all
  then show ?thesis
    by (simp add: sending_single_line_def send_line_def Let_def emit_def Cons)
qed

lemma send_line_effect:
  "commands_in_device_buffer (snd (send_line line s)) = commands_in_device_buffer s @ [line]
   \<and> buffered_characters (snd (send_line line s))
       = buffered_characters s + int (length line)
   \<and> device_buffer_size (snd (send_line line s)) = device_buffer_size s"
  by (simp add: send_line_def Let_def emit_def split: list.splits)

lemma single_line_effect:
  assumes "sending_queue s = line # rest"
  shows "fst (sending_single_line s) = Returns
       \<and> sending_queue (snd (sending_single_line s)) = rest
       \<and> commands_in_device_buffer (snd (sending_single_line s))
           = commands_in_device_buffer s @ [line]
       \<and> buffered_characters (snd (sending_single_line s))
           = buffered_characters s + int (length line)"
  using assms by (simp add: sending_single_line_def emit_def)

lemma recv_ok_effect:
  assumes "read_response (pending s) = Some (''ok'', rest)"
    and "commands_in_device_buffer s = l # others"
  shows "fst (recv_response s) = Returns
       \<and> commands_in_device_buffer (snd (recv_response s)) = others
       \<and> buffered_characters (snd (recv_response s)) = buffered_characters s - int (length l)"
  using assms by (simp add: recv_response_def Let_def emit_def)

lemma recv_other_effect:
  assumes "\<not> (\<exists>rest l others. read_response (pending s) = Some (''ok'', rest)
              \<and> commands_in_device_buffer s = l # others)"
  shows "commands_in_device_buffer (snd (recv_response s)) = commands_in_device_buffer s
       \<and> buffered_characters (snd (recv_response s)) = buffered_characters s"
  using assms
  by (auto simp: recv_response_def Let_def emit_def split: option.splits list.splits)

definition in_flight :: "controller \<Rightarrow> string list \<times> int" where
  "in_flight s = (commands_in_device_buffer s, buffered_characters s)"

lemma in_flight_open: "in_flight (snd (open_connection s)) = in_flight s"
  by (simp add: in_flight_def open_connection_def Let_def emit_def split: option.splits)

lemma in_flight_start: "in_flight (snd (start s)) = in_flight s"
  using in_flight_open [of s]
  by (cases "open_connection s") (auto simp: start_def in_flight_def split: outcome.splits)

lemma in_flight_callers:
  "in_flight (snd (write_data d s)) = in_flight s"
  "in_flight (snd (realtime d s)) = in_flight s"
  "in_flight (stop s) = in_flight s"
  "in_flight (snd (sending_realtime s)) = in_flight s"
proof -
  obtain r s1 where e: "start s = (r, s1)" by force
  have i: "in_flight s1 = in_flight s" using in_flight_start [of s] e by simp
  show "in_flight (snd (write_data d s)) = in_flight s"
    using e i by (cases r) (simp_all add: write_data_def in_flight_def)
  show "in_flight (snd (realtime d s)) = in_flight s"
    using e i by (cases r) (simp_all add: realtime_def in_flight_def Let_def)
  show "in_flight (stop s) = in_flight s"
    by (simp add: stop_def close_connection_def in_flight_def)
  show "in_flight (snd (sending_realtime s)) = in_flight s"
    by (simp add: sending_realtime_def in_flight_def emit_def split: list.splits)
qed

lemma inv_send_line: "buffer_invariant s \<Longrightarrow> buffer_invariant (snd (send_line line s))"
  by (simp add: buffer_invariant_def send_line_effect)

lemma inv_access: "buffer_invariant s \<Longrightarrow> buffer_invariant (snd (access_step a s))"
  by (cases a) (simp_all add: inv_step inv_stop inv_sending_realtime inv_send_line inv_recv)

lemma inv_interleave: "buffer_invariant s \<Longrightarrow> buffer_invariant (snd (interleave as s))"
proof (induction as arbitrary: s)
  case Nil
  then show ?case by simp
next
  case (Cons a as)
  obtain r s1 where e: "access_step a s = (r, s1)" by force
  have i1: "buffer_invariant s1" using inv_access [OF Cons.prems, of a] e by simp
  show ?case using e i1 Cons.IH [OF i1] by (cases r) simp_all
qed

text \<open>
  What holds of the count. It is the sum of the lengths of the lines in flight for a new
  controller and after every operation, in every schedule of callers and sender:
  \<open>_sending_single_line\<close> appends the line it sends and adds its length,
  \<open>_recv_response\<close> on ok pops the oldest line and takes its length off, and nothing
  else changes the two fields. A send that follows its guard with the queue as the guard
  saw it leaves the count below the size of the device buffer.
\<close>

lemma buffered_characters_invariant:
  assumes "buffer_invariant s"
  shows "buffer_invariant (init_controller n sync up rs)
       \<and> (\<forall>line rest. sending_queue s = line # rest \<longrightarrow>
             fst (sending_single_line s) = Returns
             \<and> sending_queue (snd (sending_single_line s)) = rest
             \<and> commands_in_device_buffer (snd (sending_single_line s))
                 = commands_in_device_buffer s @ [line]
             \<and> buffered_characters (snd (sending_single_line s))
                 = buffered_characters s + int (length line))
       \<and> (\<forall>rest l others.
             read_response (pending s) = Some (''ok'', rest)
             \<and> commands_in_device_buffer s = l # others \<longrightarrow>
             fst (recv_response s) = Returns
             \<and> commands_in_device_buffer (snd (recv_response s)) = others
             \<and> buffered_characters (snd (recv_response s))
                 = buffered_characters s - int (length l))
       \<and> (\<not> (\<exists>rest l others. read_response (pending s) = Some (''ok'', rest)
                \<and> commands_in_device_buffer s = l # others) \<longrightarrow>
             in_flight (snd (recv_response s)) = in_flight s)
       \<and> in_flight (snd (write_data d s)) = in_flight s
       \<and> in_flight (snd (realtime d s)) = in_flight s
       \<and> in_flight (snd (sending_realtime s)) = in_flight s
       \<and> in_flight (stop s) = in_flight s
       \<and> buffer_invariant (snd (sending_single_line s))
       \<and> buffer_invariant (snd (send_line stale s))
       \<and> buffer_invariant (snd (recv_response s))
       \<and> buffer_invariant (snd (interleave accesses s))
       \<and> (room_for_next s \<longrightarrow>
             fst (sending_single_line s) = Returns
             \<and> buffered_characters (snd (sending_single_line s))
                 \<le> device_buffer_size (snd (sending_single_line s)))
       \<and> send_while_room s = (Returns, last (s # states_after_sends s))
       \<and> (\<forall>t \<in> set (states_after_sends s).
             buffer_invariant t \<and> buffered_characters t \<le> device_buffer_size t)"
proof (intro conjI allI impI ballI)
  show "buffer_invariant (init_controller n sync up rs)" by (rule inv_init)
  show "in_flight (snd (write_data d s)) = in_flight s" by (rule in_flight_callers)
  show "in_flight (snd (realtime d s)) = in_flight s" by (rule in_flight_callers)
  show "in_flight (snd (sending_realtime s)) = in_flight s" by (rule in_flight_callers)
  show "in_flight (stop s) = in_flight s" by (rule in_flight_callers)
  show "buffer_invariant (snd (sending_single_line s))" using assms by (rule inv_single)
  show "buffer_invariant (snd (send_line stale s))" using assms by (rule inv_send_line)
  show "buffer_invariant (snd (recv_response s))" using assms by (rule inv_recv)
  show "buffer_invariant (snd (interleave accesses s))" using assms by (rule inv_interleave)
  show "send_while_room s = (Returns, last (s # states_after_sends s))"
    by (rule send_while_room_states)
next
  fix line rest
  assume q: "sending_queue s = line # rest"
  note e = single_line_effect [OF q]
  show "fst (sending_single_line s) = Returns" using e by simp
  show "sending_queue (snd (sending_single_line s)) = rest" using e by simp
  show "commands_in_device_buffer (snd (sending_single_line s))
          = commands_in_device_buffer s @ [line]" using e by simp
  show "buffered_characters (snd (sending_single_line s))
          = buffered_characters s + int (length line)" using e by simp
next
  fix rest l others
  assume a: "read_response (pending s) = Some (''ok'', rest)
             \<and> commands_in_device_buffer s = l # others"
  note e = recv_ok_effect [OF conjunct1 [OF a] conjunct2 [OF a]]
  show "fst (recv_response s) = Returns" using e by simp
  show "commands_in_device_buffer (snd (recv_response s)) = others" using e by simp
  show "buffered_characters (snd (recv_response s)) = buffered_characters s - int (length l)"
    using e by simp
next
  assume "\<not> (\<exists>rest l others. read_response (pending s) = Some (''ok'', rest)
                \<and> commands_in_device_buffer s = l # others)"
  from recv_other_effect [OF this]
  show "in_flight (snd (recv_response s)) = in_flight s" by (simp add: in_flight_def)
next
  assume r: "room_for_next s"
  show "fst (sending_single_line s) = Returns" using r by (rule room_single_returns)
  show "buffered_characters (snd (sending_single_line s))
          \<le> device_buffer_size (snd (sending_single_line s))"
    using room_single_bound [OF r] by simp
next
  fix t
  assume t: "t \<in> set (states_after_sends s)"
  show "buffer_invariant t" using assms t by (rule states_after_sends_inv)
  show "buffered_characters t \<le> device_buffer_size t" using t by (rule states_after_sends_bound)
qed

definition race_state :: controller where
  "race_state =
     (init_controller 12 False True [])
       \<lparr>connected := True, sending_thread := True, sending_queue := [''G0 X1'']\<rparr>"

definition race_state_after_callers :: controller where
  "race_state_after_callers =
     snd (write_data ''G1 X100 Y100 F1200'' (snd (realtime [cancel_code] race_state)))"

text \<open>
  Claim C1. The count is the sum of the lengths of the lines in flight, and right after a
  send of a line of the normal queue in buffered mode it does not exceed the size of the
  device buffer. The guard of the loop of \<open>_sending_buffered\<close> (line 257) and the read
  of the line to send (line 227) are two accesses to the queue with no lock held. Here
  the buffer takes 12 characters, nothing is in flight and the queue holds one line of 5
  characters, so the guard holds; before the sender reads the line, a caller cancels and
  writes a line of 18 characters; the sender then sends that line, and the count is 18.
\<close>

theorem buffered_characters_bound_race:
  "\<not> sync_mode race_state
   \<and> buffer_invariant race_state
   \<and> room_for_next race_state
   \<and> fst (realtime [cancel_code] race_state) = Returns
   \<and> fst (write_data ''G1 X100 Y100 F1200'' (snd (realtime [cancel_code] race_state))) = Returns
   \<and> sending_queue race_state_after_callers = [''G1 X100 Y100 F1200'']
   \<and> fst (sending_single_line race_state_after_callers) = Returns
   \<and> buffered_characters (snd (sending_single_line race_state_after_callers)) = 18
   \<and> device_buffer_size (snd (sending_single_line race_state_after_callers)) = 12"
  by (simp add: race_state_after_callers_def race_state_def init_controller_def
      buffer_invariant_def room_for_next_def length_of_next_line_def realtime_def write_data_def
      start_def open_connection_def Let_def sending_single_line_def emit_def cancel_code_def)

subsection \<open>A real-time line with the cancel code: the call and the next turn\<close>










section \<open>The engrave operation (meerk40t/core/node/op_engrave.py)\<close>

text \<open>
  \<open>EngraveOpNode.as_cutobjects\<close> turns every subpath of the geometry of the operation
  into one group of cut objects. A point is a pair of coordinates, taken as real numbers.
  A subpath is the list of its segments; of a \<open>Move\<close> only the point it goes to is
  used. The settings, the number of passes and the reference to the path, which the
  loop copies and never reads, are left out.

  The fields \<open>last\<close>, \<open>closed\<close> and \<open>next\<close> of a cut object are called
  \<open>last_flag\<close>, \<open>closed_flag\<close> and \<open>next_cut\<close> here, and the flag
  \<open>closed\<close> of a group \<open>group_closed\<close>. The members of a group are distinct
  objects, so a link to a member is its index in the group, and \<open>None\<close> is a link
  that was never set.
\<close>

type_synonym point = "real \<times> real"

datatype segment =
    Move point
  | Close point point
  | Line point point
  | QuadraticBezier point point point
  | CubicBezier point point point point

datatype cut_kind =
    LineCut point point
  | QuadCut point point point
  | CubicCut point point point point

record cut_object =
  kind :: cut_kind
  first :: bool
  last_flag :: bool
  closed_flag :: bool
  next_cut :: "nat option"
  previous :: "nat option"

record cut_group =
  group_closed :: bool
  members :: "cut_object list"

text \<open>
  Modelled from the spec: the constructors of \<open>LineCut\<close>, \<open>QuadCut\<close> and
  \<open>CubicCut\<close> (meerk40t/core/cutcode) are not among the sources. A new cut object
  has neither flag set and no links.
\<close>

definition new_cut :: "cut_kind \<Rightarrow> cut_object" where
  "new_cut k = \<lparr>kind = k, first = False, last_flag = False, closed_flag = False,
                 next_cut = None, previous = None\<rparr>"

fun segment_end :: "segment \<Rightarrow> point" where
  "segment_end (Move e) = e"
| "segment_end (Close s e) = e"
| "segment_end (Line s e) = e"
| "segment_end (QuadraticBezier s c e) = e"
| "segment_end (CubicBezier s c1 c2 e) = e"

text \<open>The start of a segment; a \<open>Move\<close> starts the subpath where it goes to.\<close>

fun segment_start :: "segment \<Rightarrow> point" where
  "segment_start (Move e) = e"
| "segment_start (Close s e) = s"
| "segment_start (Line s e) = s"
| "segment_start (QuadraticBezier s c e) = s"
| "segment_start (CubicBezier s c1 c2 e) = s"

fun is_Close :: "segment \<Rightarrow> bool" where
  "is_Close (Close s e) = True"
| "is_Close seg = False"

text \<open>
  Modelled from the spec: \<open>Path.z_point\<close> and \<open>Path.current_point\<close>
  (meerk40t/svgelements.py) are not among the sources. They are the point where the
  subpath starts and the point where it ends.
\<close>

definition z_point :: "segment list \<Rightarrow> point" where
  "z_point sp = segment_start (hd sp)"

definition current_point :: "segment list \<Rightarrow> point" where
  "current_point sp = segment_end (last sp)"

text \<open>
  Modelled from the spec: \<open>abs\<close> of the difference of two points
  (meerk40t/svgelements.py, not among the sources) is their distance.
\<close>

definition distance :: "point \<Rightarrow> point \<Rightarrow> real" where
  "distance p q = sqrt ((fst p - fst q)\<^sup>2 + (snd p - snd q)\<^sup>2)"

text \<open>The test of \<open>as_cutobjects\<close> on a subpath that is not empty.\<close>

definition is_closed :: "real \<Rightarrow> segment list \<Rightarrow> bool" where
  "is_closed closed_distance sp =
     (is_Close (last sp) \<or> distance (z_point sp) (current_point sp) \<le> closed_distance)"

text \<open>
  What a segment appends to the group: nothing for a \<open>Move\<close>, and nothing for a
  \<open>Close\<close> or a \<open>Line\<close> that ends where it starts.
\<close>

fun cuts_of :: "segment \<Rightarrow> cut_object list" where
  "cuts_of (Move e) = []"
| "cuts_of (Close s e) = (if s \<noteq> e then [new_cut (LineCut s e)] else [])"
| "cuts_of (Line s e) = (if s \<noteq> e then [new_cut (LineCut s e)] else [])"
| "cuts_of (QuadraticBezier s c e) = [new_cut (QuadCut s c e)]"
| "cuts_of (CubicBezier s c1 c2 e) = [new_cut (CubicCut s c1 c2 e)]"

text \<open>
  After the segments, the first member is flagged, and the loop over the members sets
  the flag \<open>closed\<close> and the links of each. \<open>cuts[i + 1]\<close> raises IndexError for
  the last member only, which is then flagged as last and linked to the first member;
  \<open>cuts[i - 1]\<close> is the last member when \<open>i\<close> is 0.
\<close>

definition mark_first :: "cut_object list \<Rightarrow> cut_object list" where
  "mark_first cuts = (if length cuts > 0 then cuts[0 := (cuts ! 0)\<lparr>first := True\<rparr>] else cuts)"

definition link_one :: "bool \<Rightarrow> cut_object list \<Rightarrow> nat \<Rightarrow> cut_object" where
  "link_one cl cuts i =
     (let n = length cuts;
          c = (cuts ! i)\<lparr>closed_flag := cl\<rparr>;
          c1 = (if i + 1 < n then c\<lparr>next_cut := Some (i + 1)\<rparr>
                else c\<lparr>last_flag := True, next_cut := Some 0\<rparr>)
      in c1\<lparr>previous := Some (if i = 0 then n - 1 else i - 1)\<rparr>)"

definition link_all :: "bool \<Rightarrow> cut_object list \<Rightarrow> cut_object list" where
  "link_all cl cuts = map (link_one cl cuts) [0..<length cuts]"

text \<open>One group for every subpath that has a segment; an empty subpath is skipped.\<close>

definition cut_group_of :: "real \<Rightarrow> segment list \<Rightarrow> cut_group" where
  "cut_group_of closed_distance sp =
     (let cl = is_closed closed_distance sp;
          cuts = concat (map cuts_of sp)
      in \<lparr>group_closed = cl, members = link_all cl (mark_first cuts)\<rparr>)"

definition as_cutobjects :: "real \<Rightarrow> segment list list \<Rightarrow> cut_group list" where
  "as_cutobjects closed_distance subpaths =
     map (cut_group_of closed_distance) (filter (\<lambda>sp. length sp \<noteq> 0) subpaths)"

section \<open>Properties of the engrave operation\<close>

lemma distance_le_iff:
  "distance p q \<le> d \<longleftrightarrow> 0 \<le> d \<and> (fst p - fst q)\<^sup>2 + (snd p - snd q)\<^sup>2 \<le> d\<^sup>2"
proof (cases "0 \<le> d")
  case True
  let ?x = "(fst p - fst q)\<^sup>2 + (snd p - snd q)\<^sup>2"
  have "sqrt (d\<^sup>2) = d" using True by simp
  then have "sqrt ?x \<le> d \<longleftrightarrow> sqrt ?x \<le> sqrt (d\<^sup>2)" by simp
  also have "\<dots> \<longleftrightarrow> ?x \<le> d\<^sup>2" by (rule real_sqrt_le_iff)
  finally show ?thesis using True by (simp add: distance_def)
next
  case False
  let ?x = "(fst p - fst q)\<^sup>2 + (snd p - snd q)\<^sup>2"
  have "0 \<le> sqrt ?x" by simp
  then have "\<not> sqrt ?x \<le> d" using False by linarith
  then show ?thesis using False by (simp add: distance_def)
qed

lemma link_all_length [simp]: "length (link_all c g) = length g"
  by (simp add: link_all_def)

lemma mark_first_length [simp]: "length (mark_first g) = length g"
  by (simp add: mark_first_def)

lemma link_all_nth:
  "i < length g \<Longrightarrow> link_all c g ! i = link_one c g i"
  by (simp add: link_all_def)

lemma first_link_one: "first (link_one c g i) = first (g ! i)"
  by (simp add: link_one_def Let_def)

lemma cuts_of_fresh: "x \<in> set (cuts_of seg) \<Longrightarrow> \<not> first x \<and> \<not> last_flag x"
  by (cases seg) (auto simp: new_cut_def split: if_splits)

lemma group_fresh: "x \<in> set (concat (map cuts_of sp)) \<Longrightarrow> \<not> first x \<and> \<not> last_flag x"
  by (auto dest: cuts_of_fresh)

lemma linked_nth:
  assumes fresh: "\<forall>x \<in> set cuts. \<not> first x \<and> \<not> last_flag x" and i: "i < length cuts"
  shows "first (link_all cl (mark_first cuts) ! i) = (i = 0)"
    and "last_flag (link_all cl (mark_first cuts) ! i) = (i = length cuts - 1)"
    and "next_cut (link_all cl (mark_first cuts) ! i) = Some (if i + 1 < length cuts then i + 1 else 0)"
    and "previous (link_all cl (mark_first cuts) ! i) = Some (if i = 0 then length cuts - 1 else i - 1)"
    and "closed_flag (link_all cl (mark_first cuts) ! i) = cl"
proof -
  have e: "link_all cl (mark_first cuts) ! i = link_one cl (mark_first cuts) i"
    using i by (simp add: link_all_nth)
  have f: "\<not> first (cuts ! i)" "\<not> last_flag (cuts ! i)"
    using fresh i by simp_all
  have m: "first (mark_first cuts ! i) = (i = 0)" "last_flag (mark_first cuts ! i) = False"
    using f i by (auto simp: mark_first_def nth_list_update)
  show "first (link_all cl (mark_first cuts) ! i) = (i = 0)"
    using m by (simp add: e link_one_def Let_def)
  show "last_flag (link_all cl (mark_first cuts) ! i) = (i = length cuts - 1)"
    using m i by (auto simp: e link_one_def Let_def)
  show "next_cut (link_all cl (mark_first cuts) ! i) = Some (if i + 1 < length cuts then i + 1 else 0)"
    by (simp add: e link_one_def Let_def)
  show "previous (link_all cl (mark_first cuts) ! i) = Some (if i = 0 then length cuts - 1 else i - 1)"
    by (simp add: e link_one_def Let_def)
  show "closed_flag (link_all cl (mark_first cuts) ! i) = cl"
    by (simp add: e link_one_def Let_def)
qed

lemma filter_index: "k < n \<Longrightarrow> filter (\<lambda>i. i = k) [0..<n] = [k]"
proof (induction n)
  case 0
  then show ?case by simp
next
  case (Suc n)
  show ?case
  proof (cases "k = n")
    case True
    have "filter (\<lambda>i. i = n) [0..<n] = []" by (simp add: filter_empty_conv)
    then show ?thesis using True by simp
  next
    case False
    then have "k < n" using Suc.prems by simp
    then show ?thesis using Suc.IH False by simp
  qed
qed

lemma members_of_group:
  "members (cut_group_of cd sp) =
     link_all (is_closed cd sp) (mark_first (concat (map cuts_of sp)))"
  "group_closed (cut_group_of cd sp) = is_closed cd sp"
  by (simp_all add: cut_group_of_def Let_def)

lemma group_cases:
  assumes "g \<in> set (as_cutobjects cd subpaths)"
  obtains sp where "sp \<noteq> []" and "g = cut_group_of cd sp"
  using assms by (auto simp: as_cutobjects_def)

lemma group_links:
  assumes "g \<in> set (as_cutobjects cd subpaths)" and "i < length (members g)"
  shows "first (members g ! i) = (i = 0)"
    and "last_flag (members g ! i) = (i = length (members g) - 1)"
    and "next_cut (members g ! i) = Some (if i + 1 < length (members g) then i + 1 else 0)"
    and "previous (members g ! i) = Some (if i = 0 then length (members g) - 1 else i - 1)"
    and "closed_flag (members g ! i) = group_closed g"
proof -
  obtain sp where g: "g = cut_group_of cd sp" using assms(1) by (rule group_cases)
  let ?cuts = "concat (map cuts_of sp)"
  have fresh: "\<forall>x \<in> set ?cuts. \<not> first x \<and> \<not> last_flag x"
    using group_fresh by blast
  have n: "length (members g) = length ?cuts" by (simp add: g members_of_group)
  have i: "i < length ?cuts" using assms(2) n by simp
  note l = linked_nth [OF fresh i, of "is_closed cd sp"]
  show "first (members g ! i) = (i = 0)" using l(1) by (simp add: g members_of_group)
  show "last_flag (members g ! i) = (i = length (members g) - 1)"
    using l(2) n by (simp add: g members_of_group)
  show "next_cut (members g ! i) = Some (if i + 1 < length (members g) then i + 1 else 0)"
    using l(3) n by (simp add: g members_of_group)
  show "previous (members g ! i) = Some (if i = 0 then length (members g) - 1 else i - 1)"
    using l(4) n by (simp add: g members_of_group)
  show "closed_flag (members g ! i) = group_closed g"
    using l(5) by (simp add: g members_of_group)
qed

definition contour :: "point \<Rightarrow> segment list" where
  "contour e =
     [Move (0, 0), Line (0, 0) (100, 0), Line (100, 0) (100, 100),
      Line (100, 100) (0, 100), Line (0, 100) e]"

definition rectangle :: "segment list" where
  "rectangle =
     [Move (0, 0), Line (0, 0) (100, 0), Line (100, 0) (100, 50),
      Line (100, 50) (0, 50), Close (0, 50) (0, 0)]"

definition corner :: "segment list" where
  "corner = [Move (0, 0), Line (0, 0) (100, 0), QuadraticBezier (100, 0) (100, 100) (0, 100)]"

text \<open>
  Claim C4. In every group of \<open>as_cutobjects\<close> that has a member, exactly one member
  is flagged as first, the one at index 0, and exactly one as last, the one at the last
  index (the same member when there is only one); when the group is closed, the link
  \<open>next\<close> of the last member is the first member and the link \<open>previous\<close> of the
  first member is the last one. Every member carries the flag \<open>closed\<close> of its group.
\<close>

theorem cut_group_first_last:
  assumes "g \<in> set (as_cutobjects closed_distance subpaths)" and "members g \<noteq> []"
  shows "filter (\<lambda>i. first (members g ! i)) [0..<length (members g)] = [0]
       \<and> filter (\<lambda>i. last_flag (members g ! i)) [0..<length (members g)]
           = [length (members g) - 1]
       \<and> (group_closed g \<longrightarrow>
             next_cut (members g ! (length (members g) - 1)) = Some 0
             \<and> previous (members g ! 0) = Some (length (members g) - 1))
       \<and> (\<forall>i < length (members g). closed_flag (members g ! i) = group_closed g)"
proof -
  let ?n = "length (members g)"
  have n: "0 < ?n" using assms(2) by simp
  have "filter (\<lambda>i. first (members g ! i)) [0..<?n] = filter (\<lambda>i. i = 0) [0..<?n]"
    by (rule filter_cong) (simp_all add: group_links(1) [OF assms(1)])
  then have a: "filter (\<lambda>i. first (members g ! i)) [0..<?n] = [0]"
    using filter_index [OF n] by simp
  have "filter (\<lambda>i. last_flag (members g ! i)) [0..<?n] = filter (\<lambda>i. i = ?n - 1) [0..<?n]"
    by (rule filter_cong) (simp_all add: group_links(2) [OF assms(1)])
  then have b: "filter (\<lambda>i. last_flag (members g ! i)) [0..<?n] = [?n - 1]"
    using filter_index [of "?n - 1" ?n] n by simp
  have c: "next_cut (members g ! (?n - 1)) = Some 0"
    using group_links(3) [OF assms(1), of "?n - 1"] n by simp
  have d: "previous (members g ! 0) = Some (?n - 1)"
    using group_links(4) [OF assms(1) n] by simp
  show ?thesis using a b c d group_links(5) [OF assms(1)] by simp
qed

lemma rectangle_group:
  "as_cutobjects 15 [rectangle] =
     [\<lparr>group_closed = True,
       members =
         [\<lparr>kind = LineCut (0, 0) (100, 0), first = True, last_flag = False, closed_flag = True,
           next_cut = Some 1, previous = Some 3\<rparr>,
          \<lparr>kind = LineCut (100, 0) (100, 50), first = False, last_flag = False,
           closed_flag = True, next_cut = Some 2, previous = Some 0\<rparr>,
          \<lparr>kind = LineCut (100, 50) (0, 50), first = False, last_flag = False,
           closed_flag = True, next_cut = Some 3, previous = Some 1\<rparr>,
          \<lparr>kind = LineCut (0, 50) (0, 0), first = False, last_flag = True, closed_flag = True,
           next_cut = Some 0, previous = Some 2\<rparr>]\<rparr>]"
  by (simp add: as_cutobjects_def rectangle_def cut_group_of_def is_closed_def new_cut_def
      mark_first_def link_all_def link_one_def Let_def upt_rec)

theorem cut_group_first_last_witness:
  "hd (as_cutobjects 15 [rectangle]) \<in> set (as_cutobjects 15 [rectangle])
   \<and> length (members (hd (as_cutobjects 15 [rectangle]))) = 4
   \<and> group_closed (hd (as_cutobjects 15 [rectangle]))
   \<and> map first (members (hd (as_cutobjects 15 [rectangle]))) = [True, False, False, False]
   \<and> map last_flag (members (hd (as_cutobjects 15 [rectangle]))) = [False, False, False, True]
   \<and> next_cut (members (hd (as_cutobjects 15 [rectangle])) ! 3) = Some 0
   \<and> previous (members (hd (as_cutobjects 15 [rectangle])) ! 0) = Some 3"
  using cut_group_first_last [of "hd (as_cutobjects 15 [rectangle])" 15 "[rectangle]"]
  by (simp add: rectangle_group)

lemma corner_group:
  "as_cutobjects 15 [corner] =
     [\<lparr>group_closed = False,
       members =
         [\<lparr>kind = LineCut (0, 0) (100, 0), first = True, last_flag = False,
           closed_flag = False, next_cut = Some 1, previous = Some 1\<rparr>,
          \<lparr>kind = QuadCut (100, 0) (100, 100) (0, 100), first = False, last_flag = True,
           closed_flag = False, next_cut = Some 0, previous = Some 0\<rparr>]\<rparr>]"
  by (simp add: as_cutobjects_def corner_def cut_group_of_def is_closed_def new_cut_def
      mark_first_def link_all_def link_one_def Let_def upt_rec distance_le_iff
      z_point_def current_point_def)

text \<open>
  Claim C5, as amended. In a group that has a member and is not closed the two links
  are set all the same: the link \<open>next\<close> of the last member is the first member and the
  link \<open>previous\<close> of the first member is the last one.
\<close>

theorem open_group_wrap_links:
  assumes "g \<in> set (as_cutobjects closed_distance subpaths)" and "members g \<noteq> []"
    and "\<not> group_closed g"
  shows "next_cut (members g ! (length (members g) - 1)) = Some 0
       \<and> previous (members g ! 0) = Some (length (members g) - 1)"
proof -
  have n: "0 < length (members g)" using assms(2) by simp
  have "next_cut (members g ! (length (members g) - 1)) = Some 0"
    using group_links(3) [OF assms(1), of "length (members g) - 1"] n by simp
  moreover have "previous (members g ! 0) = Some (length (members g) - 1)"
    using group_links(4) [OF assms(1) n] by simp
  ultimately show ?thesis by simp
qed

lemma open_contour_group:
  "as_cutobjects 15 [contour (12, 16)] =
     [\<lparr>group_closed = False,
       members =
         [\<lparr>kind = LineCut (0, 0) (100, 0), first = True, last_flag = False,
           closed_flag = False, next_cut = Some 1, previous = Some 3\<rparr>,
          \<lparr>kind = LineCut (100, 0) (100, 100), first = False, last_flag = False,
           closed_flag = False, next_cut = Some 2, previous = Some 0\<rparr>,
          \<lparr>kind = LineCut (100, 100) (0, 100), first = False, last_flag = False,
           closed_flag = False, next_cut = Some 3, previous = Some 1\<rparr>,
          \<lparr>kind = LineCut (0, 100) (12, 16), first = False, last_flag = True,
           closed_flag = False, next_cut = Some 0, previous = Some 2\<rparr>]\<rparr>]"
  by (simp add: as_cutobjects_def contour_def cut_group_of_def is_closed_def new_cut_def
      mark_first_def link_all_def link_one_def Let_def upt_rec distance_le_iff
      z_point_def current_point_def)

theorem open_group_wrap_links_witness:
  "hd (as_cutobjects 15 [contour (12, 16)]) \<in> set (as_cutobjects 15 [contour (12, 16)])
   \<and> length (members (hd (as_cutobjects 15 [contour (12, 16)]))) = 4
   \<and> \<not> group_closed (hd (as_cutobjects 15 [contour (12, 16)]))
   \<and> next_cut (members (hd (as_cutobjects 15 [contour (12, 16)])) ! 3) = Some 0
   \<and> previous (members (hd (as_cutobjects 15 [contour (12, 16)])) ! 0) = Some 3"
  using open_group_wrap_links [of "hd (as_cutobjects 15 [contour (12, 16)])" 15 "[contour (12, 16)]"]
  by (simp add: open_contour_group)

text \<open>
  Claim C5 as stated fails on a line followed by a quadratic curve that ends 100 units
  from where the subpath starts: the group is not closed, and its second member is
  linked to the first and the first to the second.
\<close>

theorem open_group_wrap_links_counterexample:
  "as_cutobjects 15 [corner] \<noteq> []
   \<and> \<not> group_closed (hd (as_cutobjects 15 [corner]))
   \<and> length (members (hd (as_cutobjects 15 [corner]))) = 2
   \<and> next_cut (members (hd (as_cutobjects 15 [corner])) ! 1) = Some 0
   \<and> previous (members (hd (as_cutobjects 15 [corner])) ! 0) = Some 1"
  by (simp add: corner_group)

lemma distance_contour:
  "distance (z_point (contour (6, 8))) (current_point (contour (6, 8))) = 10"
  "distance (z_point (contour (12, 16))) (current_point (contour (12, 16))) = 20"
proof -
  have "sqrt ((10::real)\<^sup>2) = 10" "sqrt ((20::real)\<^sup>2) = 20" by simp_all
  moreover have "(6::real)\<^sup>2 + 8\<^sup>2 = 10\<^sup>2" "(12::real)\<^sup>2 + 16\<^sup>2 = 20\<^sup>2"
    by simp_all
  ultimately show "distance (z_point (contour (6, 8))) (current_point (contour (6, 8))) = 10"
    and "distance (z_point (contour (12, 16))) (current_point (contour (12, 16))) = 20"
    by (simp_all add: distance_def z_point_def current_point_def contour_def)
qed

text \<open>
  Claim C8. The groups of \<open>as_cutobjects\<close> are those of the subpaths that have a
  segment, in order, and a group is closed exactly when its subpath ends with a
  \<open>Close\<close> or ends no farther than \<open>closed_distance\<close> from where it starts. With
  the tolerance 15 a contour of four lines that ends at distance 10 from its start is
  closed, and one that ends at distance 20 is not.
\<close>

theorem as_cutobjects_closed:
  "map group_closed (as_cutobjects closed_distance subpaths) =
     map (\<lambda>sp. is_Close (last sp)
               \<or> distance (z_point sp) (current_point sp) \<le> closed_distance)
       (filter (\<lambda>sp. sp \<noteq> []) subpaths)
   \<and> distance (z_point (contour (6, 8))) (current_point (contour (6, 8))) = 10
   \<and> map group_closed (as_cutobjects 15 [contour (6, 8)]) = [True]
   \<and> distance (z_point (contour (12, 16))) (current_point (contour (12, 16))) = 20
   \<and> map group_closed (as_cutobjects 15 [contour (12, 16)]) = [False]
   \<and> map (\<lambda>g. length (members g)) (as_cutobjects 15 [contour (6, 8), contour (12, 16)])
       = [4, 4]
   \<and> map group_closed (as_cutobjects 15 [[], rectangle]) = [True]"
proof (intro conjI)
  show "map group_closed (as_cutobjects closed_distance subpaths) =
     map (\<lambda>sp. is_Close (last sp)
               \<or> distance (z_point sp) (current_point sp) \<le> closed_distance)
       (filter (\<lambda>sp. sp \<noteq> []) subpaths)"
    by (simp add: as_cutobjects_def members_of_group is_closed_def comp_def)
  show "map group_closed (as_cutobjects 15 [contour (6, 8)]) = [True]"
    by (simp add: as_cutobjects_def members_of_group is_closed_def distance_contour)
       (simp add: contour_def)
  show "map group_closed (as_cutobjects 15 [contour (12, 16)]) = [False]"
    by (simp add: open_contour_group)
  show "map (\<lambda>g. length (members g)) (as_cutobjects 15 [contour (6, 8), contour (12, 16)])
       = [4, 4]"
    by (simp add: as_cutobjects_def members_of_group contour_def)
  show "map group_closed (as_cutobjects 15 [[], rectangle]) = [True]"
    by (simp add: as_cutobjects_def members_of_group is_closed_def rectangle_def)
qed (simp_all add: distance_contour)

end
